theory Spec2Isabelle
  imports Main "HOL-Library.Char_ord" "HOL-Library.List_Lexorder"
begin

section \<open>Python strings\<close>

text \<open>
  A Python \<open>str\<close> is modelled as a \<open>string\<close> whose characters are the code points
  below 256. The predicates below are Python's \<open>str.isspace\<close> and \<open>str.isdigit\<close>
  on that range.
\<close>

definition isspace :: "char \<Rightarrow> bool" where
  "isspace c \<longleftrightarrow> c \<in> set [CHR 0x09, CHR 0x0A, CHR 0x0B, CHR 0x0C, CHR 0x0D,
                        CHR 0x1C, CHR 0x1D, CHR 0x1E, CHR 0x1F, CHR 0x20, CHR 0x85, CHR 0xA0]"

definition isdigit :: "char \<Rightarrow> bool" where
  "isdigit c \<longleftrightarrow>
     (let n = (of_char c :: nat) in (48 \<le> n \<and> n \<le> 57) \<or> n = 178 \<or> n = 179 \<or> n = 185)"

text \<open>\<open>s.strip()\<close>: leading and trailing whitespace removed.\<close>

definition lstrip :: "string \<Rightarrow> string" where
  "lstrip s = dropWhile isspace s"

definition rstrip :: "string \<Rightarrow> string" where
  "rstrip s = rev (dropWhile isspace (rev s))"

definition strip :: "string \<Rightarrow> string" where
  "strip s = rstrip (lstrip s)"

text \<open>\<open>s.startswith(p)\<close>.\<close>

fun startswith :: "string \<Rightarrow> string \<Rightarrow> bool" where
  "startswith s [] = True"
| "startswith [] (p # ps) = False"
| "startswith (c # cs) (p # ps) = (c = p \<and> startswith cs ps)"

text \<open>\<open>sub in s\<close>: \<open>sub\<close> occurs in \<open>s\<close> as a substring.\<close>

fun contains :: "string \<Rightarrow> string \<Rightarrow> bool" where
  "contains sub [] = (sub = [])"
| "contains sub (c # cs) = (startswith (c # cs) sub \<or> contains sub cs)"

text \<open>\<open>s.split(d)\<close> for a one-character separator: \<open>n\<close> separators give \<open>n + 1\<close> pieces,
  empty pieces included.\<close>

fun split :: "char \<Rightarrow> string \<Rightarrow> string list" where
  "split d [] = [[]]"
| "split d (c # cs) =
     (if c = d then [] # split d cs
      else (case split d cs of p # ps \<Rightarrow> (c # p) # ps | [] \<Rightarrow> [[c]]))"

section \<open>Handle extraction\<close>

text \<open>
  \<open>extract_twitter_handles\<close> reads one column of a sheet and runs the loop below over its
  cells. The innermost loop tries every prefix of \<open>twitter_url_prefix\<close> on one URL.
\<close>

definition twitter_url_prefix :: "string list" where
  "twitter_url_prefix = [''https://twitter.com/'', ''http://twitter.com/'']"

fun handles_of_url :: "string list \<Rightarrow> string \<Rightarrow> string list" where
  "handles_of_url [] url = []"
| "handles_of_url (prefix # prefixes) url =
     (if startswith url prefix
      then (let handle = drop (length prefix) url;
                handle = (if startswith handle ''#!/'' then drop (length ''#!/'') handle else handle)
            in [handle])
      else [])
     @ handles_of_url prefixes url"

fun handles_of_urls :: "string list \<Rightarrow> string list" where
  "handles_of_urls [] = []"
| "handles_of_urls (url # urls) = handles_of_url twitter_url_prefix url @ handles_of_urls urls"

text \<open>The body of the loop over the cells: the handles one cell contributes.\<close>

definition handles_of_cell :: "string \<Rightarrow> string list" where
  "handles_of_cell cell_content =
     (if cell_content = [] then []
      else if \<not> contains ''://'' cell_content then [strip cell_content]
      else handles_of_urls (map strip (split CHR '','' cell_content)))"

fun handles_of_cells :: "string list \<Rightarrow> string list" where
  "handles_of_cells [] = []"
| "handles_of_cells (cell_content # twitter_urls) =
     handles_of_cell cell_content @ handles_of_cells twitter_urls"

section \<open>The store and the collaborators\<close>

text \<open>
  Exceptions are values. \<open>Interrupted\<close> stands for the process dying inside a
  transaction; the other constructors are the exceptions the code or its libraries raise.
\<close>

datatype error =
    IndexError
  | AttributeError
  | RuntimeError string
  | ParseError
  | SpreadsheetError
  | Interrupted

type_synonym 'a result = "error + 'a"

type_synonym timestamp = nat

text \<open>One entry of the Drive listing (keys \<open>id\<close>, \<open>title\<close>, \<open>createdDate\<close>), and what
  \<open>db.files\<close> stores for it: a copy of the entry, to which the extraction pass adds the key
  \<open>processed\<close>. An absent key reads as false through \<open>get\<close>.\<close>

record drive_file =
  drive_id :: string
  title :: string
  createdDate :: string

record file_data =
  meta :: drive_file
  processed :: bool

text \<open>What \<open>db.twitter_handles\<close> stores for one handle. The two stage fields are absent
  until the stage is recorded; a datetime is never falsy, so \<open>not get(...)\<close> is
  \<open>= None\<close>.\<close>

record handle_data =
  added :: timestamp
  imported :: timestamp
  sheet :: string
  first_tweet_at :: "timestamp option"
  second_tweet_at :: "timestamp option"

text \<open>
  An \<open>OOBTree\<close> is a mapping iterated in key order: an association list, with insertion at
  the key's place. Python compares strings lexicographically by code point, as the order
  on \<open>string\<close> does. \<open>bt_set\<close> is the in-place change of the object stored under a key.
\<close>

type_synonym 'v btree = "(string \<times> 'v) list"

fun bt_insert :: "string \<Rightarrow> 'v \<Rightarrow> 'v btree \<Rightarrow> 'v btree" where
  "bt_insert k v [] = [(k, v)]"
| "bt_insert k v ((k', v') # t) =
     (if k < k' then (k, v) # (k', v') # t
      else if k = k' then (k, v) # t
      else (k', v') # bt_insert k v t)"

definition bt_set :: "string \<Rightarrow> 'v \<Rightarrow> 'v btree \<Rightarrow> 'v btree" where
  "bt_set k v t = map (\<lambda>(k', v'). if k' = k then (k', v) else (k', v')) t"

record database =
  files :: "file_data btree"
  twitter_handles :: "handle_data btree"

text \<open>What a run does to the outside world, in order: the sheets it reads and the statuses
  it posts.\<close>

datatype stage = First | Second

datatype update_result =
    Posted
  | TweepError string "(string \<times> int option) option"

datatype effect =
    ColValues string int
  | UpdateStatus string stage string update_result

text \<open>
  The collaborators and the ambient libraries, as oracles.
  \<^item> \<open>col_values sheet_id col_index\<close>: \<open>spread.open_by_key(sheet_id).sheet1.col_values(col_index)\<close>.
  \<^item> \<open>parse_date\<close>: \<open>iso8601.parse_date\<close>.
  \<^item> \<open>import_clock handle\<close>: \<open>utcnow()\<close> when \<open>handle\<close> is imported (a handle is imported at
    most once in a pass).
  \<^item> \<open>interrupt file_id\<close>: \<open>Some k\<close> when the process dies inside the transaction of that
    file after \<open>k\<close> iterations of the loop over its handles (\<open>k\<close> at most their number).
  \<^item> \<open>update_status n msg\<close>: \<open>twitter.update_status(status=msg)\<close>, as call number \<open>n\<close> of the
    run; \<open>TweepError reason response\<close> has \<open>str(e)\<close> and, when \<open>e.response\<close> is not \<open>None\<close>,
    its text and the \<open>code\<close> of the first entry of \<open>errors\<close> in that text read as JSON (\<open>None\<close>
    when there is none, or reading it raises).
  \<^item> \<open>randrange n m\<close>: the index \<open>random.choice\<close> draws among \<open>m\<close> candidates before call \<open>n\<close>.
  \<^item> \<open>utcnow n\<close>: \<open>utcnow()\<close> after call \<open>n\<close>.
\<close>

record env =
  col_values :: "string \<Rightarrow> int \<Rightarrow> string list result"
  parse_date :: "string \<Rightarrow> timestamp result"
  import_clock :: "string \<Rightarrow> timestamp"
  interrupt :: "string \<Rightarrow> nat option"
  update_status :: "nat \<Rightarrow> string \<Rightarrow> update_result"
  randrange :: "nat \<Rightarrow> nat \<Rightarrow> nat"
  utcnow :: "nat \<Rightarrow> timestamp"

text \<open>
  \<open>with transaction.manager:\<close> commits the state the body leaves when the body returns and
  restores the state it started from when the body raises. What the body did to the
  outside world stays done.
\<close>

definition transaction ::
  "('s \<Rightarrow> 'a result \<times> 's \<times> effect list) \<Rightarrow> 's \<Rightarrow> 'a result \<times> 's \<times> effect list" where
  "transaction body s =
     (case body s of
        (Inl e, s', fx) \<Rightarrow> (Inl e, s, fx)
      | (Inr x, s', fx) \<Rightarrow> (Inr x, s', fx))"

section \<open>Discovery\<close>

text \<open>\<open>title[-1]\<close> raises \<open>IndexError\<close> on the empty string.\<close>

definition last_char :: "string \<Rightarrow> char result" where
  "last_char s = (if s = [] then Inl IndexError else Inr (last s))"

text \<open>The body of the loop of \<open>scan_for_new_spreadsheets\<close> for one listed file.\<close>

definition scan_file :: "drive_file \<Rightarrow> database \<Rightarrow> unit result \<times> database \<times> effect list" where
  "scan_file file db =
     (case last_char (title file) of
        Inl e \<Rightarrow> (Inl e, db, [])
      | Inr c \<Rightarrow>
          if \<not> isdigit c then (Inr (), db, [])
          else transaction (\<lambda>db.
                 (Inr (),
                  (if map_of (files db) (drive_id file) = None
                   then db\<lparr>files := bt_insert (drive_id file) \<lparr>meta = file, processed = False\<rparr> (files db)\<rparr>
                   else db),
                  [])) db)"

text \<open>The loop over the listing \<open>watch_files\<close> returned; an exception ends it.\<close>

fun scan_for_new_spreadsheets ::
  "drive_file list \<Rightarrow> database \<Rightarrow> unit result \<times> database \<times> effect list" where
  "scan_for_new_spreadsheets [] db = (Inr (), db, [])"
| "scan_for_new_spreadsheets (file # listing) db =
     (case scan_file file db of
        (Inl e, db', fx) \<Rightarrow> (Inl e, db', fx)
      | (Inr _, db', fx) \<Rightarrow>
          (case scan_for_new_spreadsheets listing db' of
             (r, db'', fx') \<Rightarrow> (r, db'', fx @ fx')))"

section \<open>Extraction pass\<close>

text \<open>\<open>ord(column_id) - ord("A") + 1\<close>, and the default column.\<close>

definition col_index :: "char \<Rightarrow> int" where
  "col_index column_id = int (of_char column_id) - int (of_char CHR ''A'') + 1"

definition column_id_default :: char where
  "column_id_default = CHR ''L''"

text \<open>\<open>extract_twitter_handles\<close>: read the column, then loop over its cells.\<close>

definition extract_twitter_handles :: "env \<Rightarrow> string \<Rightarrow> string list result \<times> effect list" where
  "extract_twitter_handles spread sheet_id =
     (case col_values spread sheet_id (col_index column_id_default) of
        Inl e \<Rightarrow> (Inl e, [ColValues sheet_id (col_index column_id_default)])
      | Inr twitter_urls \<Rightarrow>
          (Inr (handles_of_cells twitter_urls), [ColValues sheet_id (col_index column_id_default)]))"

text \<open>
  The loop over the handles of one file, inside the transaction. \<open>stop\<close> counts down the
  iterations left before the process dies, if it does.
\<close>

fun import_handles ::
  "env \<Rightarrow> string \<Rightarrow> timestamp \<Rightarrow> nat option \<Rightarrow> string list \<Rightarrow> handle_data btree
     \<Rightarrow> unit result \<times> handle_data btree" where
  "import_handles e file_id created stop [] hs =
     (if stop = Some 0 then (Inl Interrupted, hs) else (Inr (), hs))"
| "import_handles e file_id created stop (handle # handles) hs =
     (if stop = Some 0 then (Inl Interrupted, hs)
      else import_handles e file_id created (map_option (\<lambda>k. k - 1) stop) handles
             (if map_of hs handle = None
              then bt_insert handle
                     \<lparr>added = created, imported = import_clock e handle, sheet = file_id,
                      first_tweet_at = None, second_tweet_at = None\<rparr> hs
              else hs))"

text \<open>The transaction of one file: the insertions, then the flag.\<close>

definition import_file ::
  "env \<Rightarrow> string \<Rightarrow> file_data \<Rightarrow> timestamp \<Rightarrow> string list \<Rightarrow> database
     \<Rightarrow> unit result \<times> database \<times> effect list" where
  "import_file e file_id file_data created handles =
     transaction (\<lambda>db.
       (case import_handles e file_id created (interrupt e file_id) handles (twitter_handles db) of
          (Inl err, hs) \<Rightarrow> (Inl err, db\<lparr>twitter_handles := hs\<rparr>, [])
        | (Inr _, hs) \<Rightarrow>
            (Inr (),
             db\<lparr>twitter_handles := hs,
                files := bt_set file_id (file_data\<lparr>processed := True\<rparr>) (files db)\<rparr>,
             [])))"

text \<open>The body of the loop of \<open>extract_twitter_handles_from_spreadsheets\<close> for one known
  file. The date is parsed before the flag is looked at.\<close>

definition extract_file ::
  "env \<Rightarrow> string \<Rightarrow> file_data \<Rightarrow> database \<Rightarrow> unit result \<times> database \<times> effect list" where
  "extract_file e file_id file_data db =
     (case parse_date e (createdDate (meta file_data)) of
        Inl err \<Rightarrow> (Inl err, db, [])
      | Inr spreadsheet_creation_date \<Rightarrow>
          if \<not> processed file_data then
            (case extract_twitter_handles e file_id of
               (Inl err, fx) \<Rightarrow> (Inl err, db, fx)
             | (Inr handles, fx) \<Rightarrow>
                 (case import_file e file_id file_data spreadsheet_creation_date handles db of
                    (r, db', fx') \<Rightarrow> (r, db', fx @ fx')))
          else (Inr (), db, []))"

text \<open>The loop over \<open>db.files.items()\<close>. Each stored object is read and changed in its own
  iteration only, so the items are those the pass started with.\<close>

fun extract_loop ::
  "env \<Rightarrow> (string \<times> file_data) list \<Rightarrow> database \<Rightarrow> unit result \<times> database \<times> effect list" where
  "extract_loop e [] db = (Inr (), db, [])"
| "extract_loop e ((file_id, file_data) # items) db =
     (case extract_file e file_id file_data db of
        (Inl err, db', fx) \<Rightarrow> (Inl err, db', fx)
      | (Inr _, db', fx) \<Rightarrow>
          (case extract_loop e items db' of
             (r, db'', fx') \<Rightarrow> (r, db'', fx @ fx')))"

definition extract_twitter_handles_from_spreadsheets ::
  "env \<Rightarrow> database \<Rightarrow> unit result \<times> database \<times> effect list" where
  "extract_twitter_handles_from_spreadsheets e db = extract_loop e (files db) db"

section \<open>Stage runner\<close>

definition FIRST_TWEET_CHOICES :: "string list" where
  "FIRST_TWEET_CHOICES =
     [''WE AT MEGACORP THINK YOU MIGHT LIKE US - http://megacorp.example.com'']"

definition SECOND_TWEET_CHOICES :: "string list" where
  "SECOND_TWEET_CHOICES =
     [''AS WELL, WE ARE PROBABLY CHEAPER THAN COMPETITORCORP INC. http://megacorp.example.com/prices'',
      ''AS WELL, OUR FEATURE SET IS LONGER THAN MISSISSIPPI http://megacorp.example.com/features'',
      ''AS WELL, OUR CEO IS VERY HANDSOME http://megacorp.example.com/team'']"

definition MAX_TWEET_COUNT :: nat where
  "MAX_TWEET_COUNT = 10"

text \<open>\<open>random.choice\<close> on a non-empty list.\<close>

definition random_choice :: "env \<Rightarrow> nat \<Rightarrow> string list \<Rightarrow> string" where
  "random_choice e n choices = choices ! (randrange e n (length choices) mod length choices)"

text \<open>
  \<open>send_tweet\<close>: it returns when the status was posted, and also when the transport
  answered with error code 187 (duplicate status); the two sleeps change nothing. Any
  other \<open>TweepError\<close> becomes a \<open>RuntimeError\<close>; one without a response raises
  \<open>AttributeError\<close> while that message is built.
\<close>

definition send_tweet :: "update_result \<Rightarrow> unit result" where
  "send_tweet outcome =
     (case outcome of
        Posted \<Rightarrow> Inr ()
      | TweepError reason None \<Rightarrow> Inl AttributeError
      | TweepError reason (Some (text, code)) \<Rightarrow>
          if code = Some 187 then Inr ()
          else Inl (RuntimeError (''Twitter doesn't like us: '' @ (if text = [] then reason else text))))"

text \<open>The transaction of one handle: at most one stage is sent and recorded. The result
  is the new \<open>tweet_count\<close>.\<close>

definition tweet_handle ::
  "env \<Rightarrow> nat \<Rightarrow> string \<Rightarrow> handle_data \<Rightarrow> nat result \<times> handle_data \<times> effect list" where
  "tweet_handle e tweet_count handle_id =
     transaction (\<lambda>handle_data.
       if first_tweet_at handle_data = None then
         (let tweet = ''@'' @ handle_id @ '' '' @ random_choice e tweet_count FIRST_TWEET_CHOICES;
              outcome = update_status e tweet_count tweet
          in case send_tweet outcome of
               Inl err \<Rightarrow> (Inl err, handle_data, [UpdateStatus handle_id First tweet outcome])
             | Inr _ \<Rightarrow>
                 (Inr (tweet_count + 1),
                  handle_data\<lparr>first_tweet_at := Some (utcnow e tweet_count)\<rparr>,
                  [UpdateStatus handle_id First tweet outcome]))
       else if second_tweet_at handle_data = None then
         (let tweet = ''@'' @ handle_id @ '' '' @ random_choice e tweet_count SECOND_TWEET_CHOICES;
              outcome = update_status e tweet_count tweet
          in case send_tweet outcome of
               Inl err \<Rightarrow> (Inl err, handle_data, [UpdateStatus handle_id Second tweet outcome])
             | Inr _ \<Rightarrow>
                 (Inr (tweet_count + 1),
                  handle_data\<lparr>second_tweet_at := Some (utcnow e tweet_count)\<rparr>,
                  [UpdateStatus handle_id Second tweet outcome]))
       else (Inr tweet_count, handle_data, []))"

text \<open>The loop over \<open>db.twitter_handles.items()\<close>: each stored object is changed in place;
  the cap is tested after each handle.\<close>

fun tweet_loop ::
  "env \<Rightarrow> nat \<Rightarrow> handle_data btree \<Rightarrow> unit result \<times> handle_data btree \<times> effect list" where
  "tweet_loop e tweet_count [] = (Inr (), [], [])"
| "tweet_loop e tweet_count ((handle_id, handle_data) # items) =
     (case tweet_handle e tweet_count handle_id handle_data of
        (Inl err, handle_data', fx) \<Rightarrow> (Inl err, (handle_id, handle_data') # items, fx)
      | (Inr tweet_count', handle_data', fx) \<Rightarrow>
          if tweet_count' \<ge> MAX_TWEET_COUNT then (Inr (), (handle_id, handle_data') # items, fx)
          else (case tweet_loop e tweet_count' items of
                  (r, items', fx') \<Rightarrow> (r, (handle_id, handle_data') # items', fx @ fx')))"

definition tweet_everything :: "env \<Rightarrow> database \<Rightarrow> unit result \<times> database \<times> effect list" where
  "tweet_everything e db =
     (case tweet_loop e 0 (twitter_handles db) of
        (r, items, fx) \<Rightarrow> (r, db\<lparr>twitter_handles := items\<rparr>, fx))"

section \<open>The extractor in the specification's words\<close>

text \<open>A piece of a cell gives a handle when it starts with a recognized prefix: the prefix
  is removed, then a leading fragment marker.\<close>

definition spec_strip_fragment :: "string \<Rightarrow> string" where
  "spec_strip_fragment h = (if startswith h ''#!/'' then drop (length ''#!/'') h else h)"

definition spec_handle_of_piece :: "string \<Rightarrow> string option" where
  "spec_handle_of_piece piece =
     (if startswith piece ''https://twitter.com/'' then Some (spec_strip_fragment (drop (length ''https://twitter.com/'') piece))
      else if startswith piece ''http://twitter.com/'' then Some (spec_strip_fragment (drop (length ''http://twitter.com/'') piece))
      else None)"

definition spec_extract_urls :: "string \<Rightarrow> string list" where
  "spec_extract_urls cell = List.map_filter spec_handle_of_piece (map strip (split CHR '','' cell))"

section \<open>Stages, sends and runs\<close>

text \<open>
  The stage of a record is read off its two fields: the next stage to send, if any; a record
  with both fields set is terminal, any other is eligible for a send. \<open>stage_tweet\<close> is the
  message \<open>tweet_everything\<close> builds for a stage and \<open>record_stage\<close> the assignment it makes
  after \<open>send_tweet\<close> returned. \<open>returned_sends\<close> lists, from the effects of runs, the handle
  and stage of every call from which \<open>send_tweet\<close> returned. \<open>stage_runs\<close> is a sequence of
  runs of \<open>tweet_everything\<close>, each with its own collaborators, a run that raised included.
\<close>

fun stage_field :: "stage \<Rightarrow> handle_data \<Rightarrow> timestamp option" where
  "stage_field First d = first_tweet_at d"
| "stage_field Second d = second_tweet_at d"

definition terminal :: "handle_data \<Rightarrow> bool" where
  "terminal d \<longleftrightarrow> first_tweet_at d \<noteq> None \<and> second_tweet_at d \<noteq> None"

definition eligible :: "handle_data \<Rightarrow> bool" where
  "eligible d \<longleftrightarrow> \<not> terminal d"

definition stage_inv :: "handle_data \<Rightarrow> bool" where
  "stage_inv d \<longleftrightarrow> (second_tweet_at d \<noteq> None \<longrightarrow> first_tweet_at d \<noteq> None)"

definition keeps_stages :: "handle_data \<Rightarrow> handle_data \<Rightarrow> bool" where
  "keeps_stages d d' \<longleftrightarrow>
     (first_tweet_at d \<noteq> None \<longrightarrow> first_tweet_at d' = first_tweet_at d)
     \<and> (second_tweet_at d \<noteq> None \<longrightarrow> second_tweet_at d' = second_tweet_at d)
     \<and> (stage_inv d \<longrightarrow> stage_inv d')
     \<and> (terminal d \<longrightarrow> d' = d)"

fun is_duplicate :: "update_result \<Rightarrow> bool" where
  "is_duplicate (TweepError reason (Some (body, code))) = (code = Some 187)"
| "is_duplicate outcome = False"

definition next_stage :: "handle_data \<Rightarrow> stage option" where
  "next_stage d =
     (if first_tweet_at d = None then Some First
      else if second_tweet_at d = None then Some Second
      else None)"

definition stage_tweet :: "env \<Rightarrow> nat \<Rightarrow> string \<Rightarrow> stage \<Rightarrow> string" where
  "stage_tweet e n handle_id s =
     ''@'' @ handle_id @ '' '' @
       random_choice e n (case s of First \<Rightarrow> FIRST_TWEET_CHOICES | Second \<Rightarrow> SECOND_TWEET_CHOICES)"

fun record_stage :: "stage \<Rightarrow> timestamp \<Rightarrow> handle_data \<Rightarrow> handle_data" where
  "record_stage First t d = d\<lparr>first_tweet_at := Some t\<rparr>"
| "record_stage Second t d = d\<lparr>second_tweet_at := Some t\<rparr>"

fun returned_sends :: "effect list \<Rightarrow> (string \<times> stage) list" where
  "returned_sends [] = []"
| "returned_sends (UpdateStatus h s msg outcome # fx) =
     (if send_tweet outcome = Inr () then [(h, s)] else []) @ returned_sends fx"
| "returned_sends (ColValues sheet_id c # fx) = returned_sends fx"

fun stage_runs :: "env list \<Rightarrow> database \<Rightarrow> database \<times> effect list" where
  "stage_runs [] db = (db, [])"
| "stage_runs (e # es) db =
     (case tweet_everything e db of
        (r, db', fx) \<Rightarrow> (case stage_runs es db' of (db'', fx') \<Rightarrow> (db'', fx @ fx')))"

definition eligible_handles :: "handle_data btree \<Rightarrow> handle_data btree" where
  "eligible_handles t = filter (\<lambda>(h, d). eligible d) t"

text \<open>A well-formed registry: keys are unique, as in a tree, and no record has the second
  stage recorded without the first.\<close>

definition registry_ok :: "handle_data btree \<Rightarrow> bool" where
  "registry_ok t \<longleftrightarrow> distinct (map fst t) \<and> list_all (\<lambda>(h, d). stage_inv d) t"

text \<open>What a run may do to the registry \<open>t\<close>, giving \<open>t'\<close> and the effects \<open>fx\<close>.\<close>

definition run_ok ::
  "handle_data btree \<Rightarrow> handle_data btree \<Rightarrow> effect list \<Rightarrow> bool" where
  "run_ok t t' fx \<longleftrightarrow>
     map fst t' = map fst t
     \<and> (\<forall>h d. map_of t h = Some d \<longrightarrow> (\<exists>d'. map_of t' h = Some d' \<and> keeps_stages d d'))
     \<and> distinct (returned_sends fx)
     \<and> (\<forall>(h, s)\<in>set (returned_sends fx).
           \<exists>d d'. map_of t h = Some d \<and> stage_field s d = None
                 \<and> map_of t' h = Some d' \<and> stage_field s d' \<noteq> None)
     \<and> (\<forall>x\<in>set fx. \<exists>h s m out d. x = UpdateStatus h s m out \<and> map_of t h = Some d \<and> \<not> terminal d)"

section \<open>Results of an operation, and example stores\<close>

abbreviation outcome_of :: "'r \<times> 's \<times> effect list \<Rightarrow> 'r" where
  "outcome_of t \<equiv> fst t"

abbreviation store_of :: "'r \<times> 's \<times> effect list \<Rightarrow> 's" where
  "store_of t \<equiv> fst (snd t)"

abbreviation effects_of :: "'r \<times> 's \<times> effect list \<Rightarrow> effect list" where
  "effects_of t \<equiv> snd (snd t)"

definition empty_db :: database where
  "empty_db = \<lparr>files = [], twitter_handles = []\<rparr>"

definition sheet_file :: "string \<Rightarrow> string \<Rightarrow> drive_file" where
  "sheet_file i t = \<lparr>drive_id = i, title = t, createdDate = ''2015-06-01T12:00:00Z''\<rparr>"

definition known_db :: database where
  "known_db = \<lparr>files = [(''a'', \<lparr>meta = sheet_file ''a'' ''leads 1'', processed = True\<rparr>)],
               twitter_handles = []\<rparr>"

text \<open>Collaborators and stores for the extraction pass: a sheet whose column has one cell, and
  a process that dies after the first handle of a file.\<close>

abbreviation extraction_pass :: "env \<Rightarrow> database \<Rightarrow> unit result \<times> database \<times> effect list" where
  "extraction_pass \<equiv> extract_twitter_handles_from_spreadsheets"

definition quiet_env :: env where
  "quiet_env = \<lparr>col_values = (\<lambda>sheet_id col. Inr [''https://twitter.com/foo, bar'']),
                 parse_date = (\<lambda>s. Inr 20150601),
                 import_clock = (\<lambda>handle. 20150702),
                 interrupt = (\<lambda>file_id. None),
                 update_status = (\<lambda>n msg. Posted),
                 randrange = (\<lambda>n m. n),
                 utcnow = (\<lambda>n. 20150703 + n)\<rparr>"

definition F1_db :: database where
  "F1_db = \<lparr>files = [(''F1'', \<lparr>meta = sheet_file ''F1'' ''leads 1'', processed = False\<rparr>)],
            twitter_handles = []\<rparr>"

definition crashing_env :: env where
  "crashing_env = quiet_env\<lparr>col_values := (\<lambda>sheet_id col. Inr [''alice'', ''https://twitter.com/bob'']),
                             interrupt := (\<lambda>file_id. Some 1)\<rparr>"

definition mixed_db :: database where
  "mixed_db = \<lparr>files = [(''F0'', \<lparr>meta = sheet_file ''F0'' ''leads 0'', processed = True\<rparr>),
                        (''F1'', \<lparr>meta = sheet_file ''F1'' ''leads 1'', processed = False\<rparr>)],
               twitter_handles = []\<rparr>"

text \<open>Collaborators and registries for the stage runner.\<close>

definition duplicate_env :: env where
  "duplicate_env = quiet_env\<lparr>update_status :=
     (\<lambda>n msg. TweepError ''Status is a duplicate.'' (Some (''errors: code 187'', Some 187)))\<rparr>"

definition new_handle :: "string \<Rightarrow> string \<times> handle_data" where
  "new_handle h = (h, \<lparr>added = 20150601, imported = 20150702, sheet = ''F1'',
                       first_tweet_at = None, second_tweet_at = None\<rparr>)"

definition two_db :: database where
  "two_db = \<lparr>files = [], twitter_handles = [new_handle ''bar'', new_handle ''foo'']\<rparr>"

definition done_handle :: "string \<Rightarrow> string \<times> handle_data" where
  "done_handle h = (h, \<lparr>added = 20150601, imported = 20150702, sheet = ''F1'',
                        first_tweet_at = Some 20150703, second_tweet_at = Some 20150704\<rparr>)"

definition staged_db :: database where
  "staged_db = \<lparr>files = [], twitter_handles = [done_handle ''bar'', new_handle ''foo'']\<rparr>"

definition eleven_db :: database where
  "eleven_db = \<lparr>files = [],
     twitter_handles = done_handle ''a0'' #
       map new_handle [''b0'', ''b1'', ''b2'', ''b3'', ''b4'', ''b5'', ''b6'', ''b7'', ''b8'', ''b9'', ''c0'']\<rparr>"

section \<open>Properties of the extractor\<close>

lemma startswith_append: "startswith s p \<Longrightarrow> \<exists>t. s = p @ t"
  by (induction s p rule: startswith.induct) auto

lemma prefixes_exclusive:
  "startswith url ''https://twitter.com/'' \<Longrightarrow> \<not> startswith url ''http://twitter.com/''"
proof
  assume a: "startswith url ''https://twitter.com/''" and b: "startswith url ''http://twitter.com/''"
  from a obtain t where t: "url = ''https://twitter.com/'' @ t" using startswith_append by blast
  from b obtain u where u: "url = ''http://twitter.com/'' @ u" using startswith_append by blast
  from t u show False by simp
qed

lemma handles_of_url_spec:
  "handles_of_url twitter_url_prefix url =
     (case spec_handle_of_piece url of None \<Rightarrow> [] | Some h \<Rightarrow> [h])"
  using prefixes_exclusive [of url]
  by (auto simp: twitter_url_prefix_def spec_handle_of_piece_def spec_strip_fragment_def Let_def)

lemma handles_of_urls_spec:
  "handles_of_urls urls = List.map_filter spec_handle_of_piece urls"
  by (induction urls) (auto simp: handles_of_url_spec List.map_filter_simps split: option.splits)

lemmas eval_strings = handles_of_cell_def twitter_url_prefix_def strip_def lstrip_def rstrip_def isspace_def

text \<open>
  Claim C7. A cell that contains \<open>://\<close> is split on commas and the pieces are trimmed;
  the result has one handle for each piece that starts with \<open>https://twitter.com/\<close> or
  \<open>http://twitter.com/\<close>, in order, with the prefix and a leading \<open>#!/\<close> removed, and
  nothing for any other piece. The cell \<open>http://twitter.com/#!/baz\<close> gives exactly \<open>baz\<close>.
  The extractor has no error result.
\<close>

theorem C7_url_cells:
  "(contains ''://'' cell \<longrightarrow> handles_of_cell cell = spec_extract_urls cell)
   \<and> handles_of_cell ''http://twitter.com/#!/baz'' = [''baz'']"
proof
  show "contains ''://'' cell \<longrightarrow> handles_of_cell cell = spec_extract_urls cell"
    by (auto simp: handles_of_cell_def spec_extract_urls_def handles_of_urls_spec)
  show "handles_of_cell ''http://twitter.com/#!/baz'' = [''baz'']"
    by (simp add: eval_strings)
qed

text \<open>The statement at a cell with an unrecognized piece, a fragment URL and a plain URL.\<close>

theorem C7_url_cells_witness:
  "contains ''://'' ''x, http://twitter.com/#!/a ,https://twitter.com/b''
   \<and> handles_of_cell ''x, http://twitter.com/#!/a ,https://twitter.com/b'' = [''a'', ''b'']
   \<and> spec_extract_urls ''x, http://twitter.com/#!/a ,https://twitter.com/b'' = [''a'', ''b'']"
  using C7_url_cells [of "''x, http://twitter.com/#!/a ,https://twitter.com/b''"]
  by (simp add: eval_strings)

lemma handles_of_cell_plain:
  "\<not> contains ''://'' c \<Longrightarrow> handles_of_cell c = (if c = [] then [] else [strip c])"
  by (simp add: handles_of_cell_def)

text \<open>
  Claim C6. A cell without \<open>://\<close> gives its trimmed text as the one handle, and the empty
  cell gives nothing (\<open>handles_of_cell_plain\<close>). A cell of spaces is not the empty cell: it
  passes the emptiness test, is trimmed afterwards, and gives the empty string as a handle.
\<close>

theorem C6_blank_cell:
  "\<not> contains ''://'' ''  '' \<and> strip ''  '' = [] \<and> handles_of_cell ''  '' = [[]]"
  by (simp add: eval_strings)

section \<open>Properties of discovery\<close>

lemma map_of_bt_insert: "map_of (bt_insert k v t) = (map_of t)(k \<mapsto> v)"
  by (induction t) (auto simp: fun_upd_twist)

lemma scan_file_cases:
  "scan_file file db =
     (if title file = [] then (Inl IndexError, db, [])
      else if isdigit (last (title file)) \<and> map_of (files db) (drive_id file) = None
      then (Inr (), db\<lparr>files := bt_insert (drive_id file) \<lparr>meta = file, processed = False\<rparr> (files db)\<rparr>, [])
      else (Inr (), db, []))"
  by (simp add: scan_file_def last_char_def transaction_def)

lemma scan_effects: "effects_of (scan_for_new_spreadsheets listing db) = []"
  by (induction listing arbitrary: db) (auto simp: scan_file_cases split: prod.splits sum.splits)

lemma scan_outcome:
  "outcome_of (scan_for_new_spreadsheets listing db) =
     (if \<forall>f\<in>set listing. title f \<noteq> [] then Inr () else Inl IndexError)"
  by (induction listing arbitrary: db) (auto simp: scan_file_cases split: prod.splits sum.splits)

lemma scan_append_ok:
  "\<forall>f\<in>set pre. title f \<noteq> [] \<Longrightarrow>
   scan_for_new_spreadsheets (pre @ rest) db =
     scan_for_new_spreadsheets rest (store_of (scan_for_new_spreadsheets pre db))"
proof (induction pre arbitrary: db)
  case Nil
  then show ?case by simp
next
  case (Cons f pre)
  then show ?case
    using scan_effects [of rest]
    by (auto simp: scan_file_cases split: prod.splits sum.splits)
qed

text \<open>
  Claim C10. Discovery returns normally exactly when every listed title is non-empty. At
  the first file with an empty title it raises \<open>IndexError\<close>; the store is then what the
  files listed before it left, so nothing was written for that file or for a later one.
\<close>

theorem C10_empty_title:
  "(outcome_of (scan_for_new_spreadsheets listing db) = Inr ()) = (\<forall>f\<in>set listing. title f \<noteq> [])
   \<and> ((\<forall>f\<in>set pre. title f \<noteq> []) \<and> title file = [] \<longrightarrow>
        scan_for_new_spreadsheets (pre @ file # post) db =
          (Inl IndexError, store_of (scan_for_new_spreadsheets pre db), []))"
  by (simp add: scan_outcome scan_append_ok scan_file_cases)

lemma scan_keeps:
  "map_of (files db) k = Some r \<Longrightarrow>
   map_of (files (store_of (scan_for_new_spreadsheets listing db))) k = Some r"
proof (induction listing arbitrary: db)
  case Nil
  then show ?case by simp
next
  case (Cons f listing)
  show ?case
  proof (cases "title f \<noteq> [] \<and> isdigit (last (title f)) \<and> map_of (files db) (drive_id f) = None")
    case True
    with Cons.prems have "k \<noteq> drive_id f" by auto
    with Cons.prems True
    have "map_of (files (db\<lparr>files := bt_insert (drive_id f) \<lparr>meta = f, processed = False\<rparr> (files db)\<rparr>)) k = Some r"
      by (simp add: map_of_bt_insert)
    from Cons.IH [OF this] True show ?thesis
      by (simp add: scan_file_cases split: prod.splits)
  next
    case False
    with Cons.IH [OF Cons.prems] Cons.prems show ?thesis
      by (auto simp: scan_file_cases split: prod.splits sum.splits)
  qed
qed

lemma scan_handles:
  "twitter_handles (store_of (scan_for_new_spreadsheets listing db)) = twitter_handles db"
  by (induction listing arbitrary: db) (auto simp: scan_file_cases split: prod.splits sum.splits)

lemma scan_again:
  "\<forall>k. map_of (files (store_of (scan_for_new_spreadsheets listing db))) k \<noteq> None
        \<longrightarrow> map_of (files db') k \<noteq> None \<Longrightarrow>
   store_of (scan_for_new_spreadsheets listing db') = db'"
proof (induction listing arbitrary: db)
  case Nil
  then show ?case by simp
next
  case (Cons f listing)
  show ?case
  proof (cases "title f = []")
    case True
    then show ?thesis by (simp add: scan_file_cases)
  next
    case nonempty: False
    show ?thesis
    proof (cases "isdigit (last (title f))")
      case False
      with nonempty Cons.prems have
        "\<forall>k. map_of (files (store_of (scan_for_new_spreadsheets listing db))) k \<noteq> None
              \<longrightarrow> map_of (files db') k \<noteq> None"
        by (simp add: scan_file_cases split: prod.splits)
      from Cons.IH [OF this] False nonempty show ?thesis
        by (simp add: scan_file_cases split: prod.splits)
    next
      case True
      define db1 where "db1 = store_of (scan_file f db)"
      have known: "map_of (files db1) (drive_id f) \<noteq> None"
        using True nonempty by (auto simp: db1_def scan_file_cases map_of_bt_insert)
      have step: "scan_for_new_spreadsheets (f # listing) db =
                    scan_for_new_spreadsheets listing db1"
        using True nonempty scan_effects [of listing]
        by (auto simp: db1_def scan_file_cases split: prod.splits)
      from known obtain r where "map_of (files db1) (drive_id f) = Some r" by auto
      from scan_keeps [OF this, of listing] step Cons.prems
      have seen: "map_of (files db') (drive_id f) \<noteq> None" by auto
      from Cons.prems step have
        "\<forall>k. map_of (files (store_of (scan_for_new_spreadsheets listing db1))) k \<noteq> None
              \<longrightarrow> map_of (files db') k \<noteq> None"
        by simp
      from Cons.IH [OF this] seen True nonempty show ?thesis
        by (auto simp: scan_file_cases split: prod.splits)
    qed
  qed
qed

text \<open>
  Claim C8. Running discovery again on the same listing, from the store the first run
  left, gives the same outcome and changes nothing. Every record the store held before a
  run is still there afterwards and is the same record (title and date included), and the
  handle registry is not touched.
\<close>

theorem C8_discovery_idempotent:
  "scan_for_new_spreadsheets listing (store_of (scan_for_new_spreadsheets listing db)) =
     (outcome_of (scan_for_new_spreadsheets listing db),
      store_of (scan_for_new_spreadsheets listing db), [])
   \<and> (map_of (files db) k = Some r \<longrightarrow>
        map_of (files (store_of (scan_for_new_spreadsheets listing db))) k = Some r)
   \<and> twitter_handles (store_of (scan_for_new_spreadsheets listing db)) = twitter_handles db"
proof -
  have "store_of (scan_for_new_spreadsheets listing (store_of (scan_for_new_spreadsheets listing db)))
          = store_of (scan_for_new_spreadsheets listing db)"
    by (rule scan_again [where db = db]) simp
  moreover have "outcome_of (scan_for_new_spreadsheets listing (store_of (scan_for_new_spreadsheets listing db)))
          = outcome_of (scan_for_new_spreadsheets listing db)"
    by (simp add: scan_outcome)
  ultimately have "scan_for_new_spreadsheets listing (store_of (scan_for_new_spreadsheets listing db)) =
     (outcome_of (scan_for_new_spreadsheets listing db),
      store_of (scan_for_new_spreadsheets listing db), [])"
    using scan_effects [of listing "store_of (scan_for_new_spreadsheets listing db)"]
    by (metis prod.collapse)
  then show ?thesis
    using scan_keeps scan_handles by blast
qed

lemmas eval_scan = scan_file_def last_char_def transaction_def isdigit_def sheet_file_def
  empty_db_def known_db_def

text \<open>A listing whose second title is empty, and the same listing without that file.\<close>

theorem C10_empty_title_witness:
  "scan_for_new_spreadsheets [sheet_file ''a'' ''leads 1'', sheet_file ''b'' '''', sheet_file ''c'' ''leads 3''] empty_db
     = (Inl IndexError,
        \<lparr>files = [(''a'', \<lparr>meta = sheet_file ''a'' ''leads 1'', processed = False\<rparr>)], twitter_handles = []\<rparr>,
        [])
   \<and> outcome_of (scan_for_new_spreadsheets [sheet_file ''a'' ''leads 1'', sheet_file ''c'' ''leads 3''] empty_db) = Inr ()"
  using C10_empty_title [of "[sheet_file ''a'' ''leads 1'']" empty_db "[sheet_file ''a'' ''leads 1'']"
                            "sheet_file ''b'' ''''" "[sheet_file ''c'' ''leads 3'']"]
        C10_empty_title [of "[sheet_file ''a'' ''leads 1'', sheet_file ''c'' ''leads 3'']" empty_db "[]"
                            "sheet_file ''b'' ''''" "[]"]
  by (simp add: eval_scan)

text \<open>A store that knows file \<open>a\<close>, and a listing that has \<open>a\<close> under a new title.\<close>

theorem C8_discovery_idempotent_witness:
  "map_of (files known_db) ''a'' = Some \<lparr>meta = sheet_file ''a'' ''leads 1'', processed = True\<rparr>
   \<and> files (store_of (scan_for_new_spreadsheets
        [sheet_file ''b'' ''leads 2'', sheet_file ''a'' ''renamed 7'', sheet_file ''x'' ''photo.jpg''] known_db))
      = [(''a'', \<lparr>meta = sheet_file ''a'' ''leads 1'', processed = True\<rparr>),
         (''b'', \<lparr>meta = sheet_file ''b'' ''leads 2'', processed = False\<rparr>)]
   \<and> map_of (files (store_of (scan_for_new_spreadsheets
        [sheet_file ''b'' ''leads 2'', sheet_file ''a'' ''renamed 7'', sheet_file ''x'' ''photo.jpg''] known_db))) ''a''
      = Some \<lparr>meta = sheet_file ''a'' ''leads 1'', processed = True\<rparr>"
  using C8_discovery_idempotent [of "[sheet_file ''b'' ''leads 2'', sheet_file ''a'' ''renamed 7'', sheet_file ''x'' ''photo.jpg'']"
          known_db "''a''" "\<lparr>meta = sheet_file ''a'' ''leads 1'', processed = True\<rparr>"]
  by (simp add: eval_scan)

section \<open>Properties of the extraction pass\<close>

lemma extract_file_processed:
  "processed fd \<Longrightarrow>
   extract_file e fid fd db =
     (case parse_date e (createdDate (meta fd)) of
        Inl err \<Rightarrow> (Inl err, db, [])
      | Inr created \<Rightarrow> (Inr (), db, []))"
  by (simp add: extract_file_def split: sum.splits)

lemma extract_loop_all_processed:
  "\<forall>(k, fd)\<in>set items. processed fd \<Longrightarrow>
   store_of (extract_loop e items db) = db \<and> effects_of (extract_loop e items db) = []"
  by (induction items arbitrary: db)
     (auto simp: extract_file_processed split: sum.splits prod.splits)

lemma map_of_bt_set:
  "map_of (bt_set k v t) k' = (if k' = k \<and> map_of t k \<noteq> None then Some v else map_of t k')"
  by (induction t) (auto simp: bt_set_def)

lemma import_file_result:
  "import_file e fid fd created handles db = (r, db', fx) \<Longrightarrow>
   fx = [] \<and> (k \<noteq> fid \<longrightarrow> map_of (files db') k = map_of (files db) k)"
  by (auto simp: import_file_def transaction_def map_of_bt_set split: prod.splits sum.splits)

lemma extract_file_files:
  "k \<noteq> fid \<or> processed fd \<Longrightarrow>
   map_of (files (store_of (extract_file e fid fd db))) k = map_of (files db) k"
  by (auto simp: extract_file_def split: prod.splits sum.splits dest: import_file_result [where k = k])

lemma extract_file_effects:
  "set (effects_of (extract_file e fid fd db)) \<subseteq>
     (if processed fd then {} else {ColValues fid (col_index column_id_default)})"
  by (auto simp: extract_file_def extract_twitter_handles_def split: prod.splits sum.splits
           dest: import_file_result)

lemma extract_loop_other:
  "\<forall>(k', fd)\<in>set items. k' = k \<longrightarrow> processed fd \<Longrightarrow>
   map_of (files (store_of (extract_loop e items db))) k = map_of (files db) k
   \<and> (\<forall>c. ColValues k c \<notin> set (effects_of (extract_loop e items db)))"
proof (induction items arbitrary: db)
  case Nil
  then show ?case by simp
next
  case (Cons item items)
  obtain fid fd where item: "item = (fid, fd)" by (cases item)
  from Cons.prems item have side: "k \<noteq> fid \<or> processed fd" by auto
  from Cons.prems have rest: "\<forall>(k', fd)\<in>set items. k' = k \<longrightarrow> processed fd" by simp
  have files1: "map_of (files (store_of (extract_file e fid fd db))) k = map_of (files db) k"
    using side by (rule extract_file_files)
  have fx1: "\<forall>c. ColValues k c \<notin> set (effects_of (extract_file e fid fd db))"
    using side extract_file_effects [of e fid fd db] by (auto split: if_splits)
  show ?case
  proof (cases "extract_file e fid fd db")
    case (fields r db1 fx)
    show ?thesis
    proof (cases r)
      case (Inl err)
      with fields files1 fx1 item show ?thesis by simp
    next
      case (Inr u)
      with fields files1 fx1 item Cons.IH [OF rest, of db1] show ?thesis
        by (auto split: prod.splits)
    qed
  qed
qed

text \<open>
  Claim C9. For a file whose record is marked processed, the step of the pass reads no sheet
  and leaves the whole store as it is. In a pass over any store with distinct keys, no sheet
  of a processed file is read and its record is unchanged; when every file is processed
  the pass reads nothing and returns the store it was given.
\<close>

theorem C9_processed_file_skipped:
  "(processed file_data \<longrightarrow>
      store_of (extract_file e file_id file_data db) = db
      \<and> effects_of (extract_file e file_id file_data db) = [])
   \<and> (distinct (map fst (files db)) \<and> (file_id, file_data) \<in> set (files db) \<and> processed file_data \<longrightarrow>
        (\<forall>c. ColValues file_id c \<notin> set (effects_of (extraction_pass e db)))
        \<and> map_of (files (store_of (extraction_pass e db))) file_id = Some file_data)
   \<and> ((\<forall>(k, fd)\<in>set (files db). processed fd) \<longrightarrow>
        store_of (extraction_pass e db) = db \<and> effects_of (extraction_pass e db) = [])"
proof (intro conjI impI)
  assume "processed file_data"
  then show "store_of (extract_file e file_id file_data db) = db"
    and "effects_of (extract_file e file_id file_data db) = []"
    by (simp_all add: extract_file_processed split: sum.splits)
next
  assume a: "distinct (map fst (files db)) \<and> (file_id, file_data) \<in> set (files db) \<and> processed file_data"
  then have "\<forall>(k', fd)\<in>set (files db). k' = file_id \<longrightarrow> processed fd"
    by (auto dest: eq_key_imp_eq_value)
  from extract_loop_other [OF this, of e db] a
  show "\<forall>c. ColValues file_id c \<notin> set (effects_of (extraction_pass e db))"
    and "map_of (files (store_of (extraction_pass e db))) file_id = Some file_data"
    by (simp_all add: extract_twitter_handles_from_spreadsheets_def)
next
  assume "\<forall>(k, fd)\<in>set (files db). processed fd"
  from extract_loop_all_processed [OF this, of e db]
  show "store_of (extraction_pass e db) = db" and "effects_of (extraction_pass e db) = []"
    by (simp_all add: extract_twitter_handles_from_spreadsheets_def)
qed

lemma import_handles_interrupted:
  "k \<le> length handles \<Longrightarrow>
   fst (import_handles e fid created (Some k) handles hs) = Inl Interrupted"
proof (induction handles arbitrary: k hs)
  case Nil
  then show ?case by simp
next
  case (Cons h handles)
  show ?case
  proof (cases k)
    case 0
    then show ?thesis by simp
  next
    case (Suc j)
    with Cons.prems have "j \<le> length handles" by simp
    from Cons.IH [OF this] Suc show ?thesis by simp
  qed
qed

lemma import_handles_keeps:
  "map_of hs h \<noteq> None \<Longrightarrow> map_of (snd (import_handles e fid created stop handles hs)) h \<noteq> None"
  by (induction handles arbitrary: stop hs) (auto simp: map_of_bt_insert)

lemma import_handles_all:
  "fst (import_handles e fid created stop handles hs) = Inr () \<Longrightarrow> h \<in> set handles \<Longrightarrow>
   map_of (snd (import_handles e fid created stop handles hs)) h \<noteq> None"
proof (induction handles arbitrary: stop hs)
  case Nil
  then show ?case by simp
next
  case (Cons x handles)
  from Cons.prems(1) have go: "stop \<noteq> Some 0" by (auto split: if_splits)
  show ?case
  proof (cases "h = x")
    case True
    have "map_of (if map_of hs x = None
              then bt_insert x \<lparr>added = created, imported = import_clock e x, sheet = fid,
                      first_tweet_at = None, second_tweet_at = None\<rparr> hs
              else hs) x \<noteq> None"
      by (simp add: map_of_bt_insert)
    from import_handles_keeps [OF this] go True show ?thesis by simp
  next
    case False
    with Cons.prems(2) have "h \<in> set handles" by simp
    with Cons.IH Cons.prems(1) go show ?thesis by simp
  qed
qed

lemma extract_file_unprocessed:
  "\<not> processed fd \<Longrightarrow> parse_date e (createdDate (meta fd)) = Inr created \<Longrightarrow>
   col_values e fid (col_index column_id_default) = Inr cells \<Longrightarrow>
   extract_file e fid fd db =
     (case import_handles e fid created (interrupt e fid) (handles_of_cells cells) (twitter_handles db) of
        (Inl err, hs) \<Rightarrow> (Inl err, db, [ColValues fid (col_index column_id_default)])
      | (Inr u, hs) \<Rightarrow>
          (Inr (),
           db\<lparr>twitter_handles := hs, files := bt_set fid (fd\<lparr>processed := True\<rparr>) (files db)\<rparr>,
           [ColValues fid (col_index column_id_default)]))"
  by (simp add: extract_file_def extract_twitter_handles_def import_file_def transaction_def
           split: prod.splits sum.splits)

lemma extract_file_failed:
  "outcome_of (extract_file e fid fd db) = Inl err \<Longrightarrow> store_of (extract_file e fid fd db) = db"
proof (cases "processed fd")
  case True
  then show ?thesis by (simp add: extract_file_processed split: sum.splits)
next
  case False
  assume failed: "outcome_of (extract_file e fid fd db) = Inl err"
  show ?thesis
  proof (cases "parse_date e (createdDate (meta fd))")
    case (Inl x)
    then show ?thesis by (simp add: extract_file_def)
  next
    case (Inr created)
    show ?thesis
    proof (cases "col_values e fid (col_index column_id_default)")
      case (Inl x)
      with Inr False show ?thesis by (simp add: extract_file_def extract_twitter_handles_def)
    next
      case cells: (Inr cells)
      from failed show ?thesis
        unfolding extract_file_unprocessed [OF False Inr cells]
        by (simp split: prod.splits sum.splits)
    qed
  qed
qed

text \<open>
  Claim C5. When the step for a file raises (the date cannot be parsed, the sheet cannot
  be read, or the process dies inside the transaction), the store is the one the step
  started from: no handle of the file is added and its flag is as before. When the step
  for an unprocessed file returns, every handle of the sheet is in the registry and the
  flag is set. A process that dies after \<open>k\<close> of the file's handles leaves the store
  untouched, whatever \<open>k\<close>.
\<close>

theorem C5_file_all_or_nothing:
  "(outcome_of (extract_file e file_id file_data db) = Inl err \<longrightarrow>
      store_of (extract_file e file_id file_data db) = db)
   \<and> (\<not> processed file_data \<and> outcome_of (extract_file e file_id file_data db) = Inr () \<longrightarrow>
        (\<exists>cells. col_values e file_id (col_index column_id_default) = Inr cells
           \<and> (\<forall>h\<in>set (handles_of_cells cells).
                 map_of (twitter_handles (store_of (extract_file e file_id file_data db))) h \<noteq> None))
        \<and> files (store_of (extract_file e file_id file_data db))
            = bt_set file_id (file_data\<lparr>processed := True\<rparr>) (files db))
   \<and> (interrupt e file_id = Some k \<and> k \<le> length handles \<longrightarrow>
        import_file e file_id file_data created handles db = (Inl Interrupted, db, []))"
proof (intro conjI impI)
  assume "outcome_of (extract_file e file_id file_data db) = Inl err"
  then show "store_of (extract_file e file_id file_data db) = db"
    by (rule extract_file_failed)
next
  assume a: "\<not> processed file_data \<and> outcome_of (extract_file e file_id file_data db) = Inr ()"
  then have unp: "\<not> processed file_data" by simp
  from a obtain made where p: "parse_date e (createdDate (meta file_data)) = Inr made"
    by (cases "parse_date e (createdDate (meta file_data))") (auto simp: extract_file_def)
  from a p obtain cells where c: "col_values e file_id (col_index column_id_default) = Inr cells"
    by (cases "col_values e file_id (col_index column_id_default)")
       (auto simp: extract_file_def extract_twitter_handles_def)
  note unfold = extract_file_unprocessed [OF unp p c, of db]
  obtain r hs where run: "import_handles e file_id made (interrupt e file_id) (handles_of_cells cells)
                (twitter_handles db) = (r, hs)"
    by (cases "import_handles e file_id made (interrupt e file_id) (handles_of_cells cells)
                (twitter_handles db)")
  from a run have ok: "r = Inr ()" unfolding unfold by (cases r) simp_all
  from run ok have st: "store_of (extract_file e file_id file_data db) =
      db\<lparr>twitter_handles := hs,
         files := bt_set file_id (file_data\<lparr>processed := True\<rparr>) (files db)\<rparr>"
    unfolding unfold by simp
  from st show "files (store_of (extract_file e file_id file_data db))
            = bt_set file_id (file_data\<lparr>processed := True\<rparr>) (files db)"
    by simp
  have "\<forall>h\<in>set (handles_of_cells cells). map_of hs h \<noteq> None"
    using import_handles_all [of e file_id made "interrupt e file_id" "handles_of_cells cells"
            "twitter_handles db"] run ok
    by simp
  with st c
  show "\<exists>cells. col_values e file_id (col_index column_id_default) = Inr cells
           \<and> (\<forall>h\<in>set (handles_of_cells cells).
                 map_of (twitter_handles (store_of (extract_file e file_id file_data db))) h \<noteq> None)"
    by simp
next
  assume "interrupt e file_id = Some k \<and> k \<le> length handles"
  with import_handles_interrupted [of k handles e file_id created "twitter_handles db"]
  show "import_file e file_id file_data created handles db = (Inl Interrupted, db, [])"
    by (auto simp: import_file_def transaction_def split: sum.splits prod.splits)
qed

lemmas eval_extract = extract_twitter_handles_from_spreadsheets_def extract_file_def
  extract_twitter_handles_def import_file_def transaction_def col_index_def column_id_default_def
  quiet_env_def crashing_env_def F1_db_def mixed_db_def sheet_file_def bt_set_def

text \<open>A pass that dies after importing the first of two handles of \<open>F1\<close>, and one that does not.\<close>

theorem C5_file_all_or_nothing_witness:
  "extraction_pass crashing_env mixed_db = (Inl Interrupted, mixed_db, [ColValues ''F1'' 12])
   \<and> import_file crashing_env ''F1'' \<lparr>meta = sheet_file ''F1'' ''leads 1'', processed = False\<rparr> 20150601
        [''alice'', ''bob''] mixed_db = (Inl Interrupted, mixed_db, [])
   \<and> files (store_of (extraction_pass quiet_env mixed_db))
       = [(''F0'', \<lparr>meta = sheet_file ''F0'' ''leads 0'', processed = True\<rparr>),
          (''F1'', \<lparr>meta = sheet_file ''F1'' ''leads 1'', processed = True\<rparr>)]"
  using C5_file_all_or_nothing [of crashing_env "''F1''" "\<lparr>meta = sheet_file ''F1'' ''leads 1'', processed = False\<rparr>"
          mixed_db Interrupted 1 "[''alice'', ''bob'']" 20150601]
        C5_file_all_or_nothing [of quiet_env "''F1''" "\<lparr>meta = sheet_file ''F1'' ''leads 1'', processed = False\<rparr>"
          mixed_db Interrupted 0 "[]" 20150601]
  by (simp add: eval_extract eval_strings)

text \<open>A store with a processed and an unprocessed file, and a store with a processed file only.\<close>

theorem C9_processed_file_skipped_witness:
  "processed \<lparr>meta = sheet_file ''F0'' ''leads 0'', processed = True\<rparr>
   \<and> extract_file quiet_env ''F0'' \<lparr>meta = sheet_file ''F0'' ''leads 0'', processed = True\<rparr> mixed_db
       = (Inr (), mixed_db, [])
   \<and> effects_of (extraction_pass quiet_env mixed_db) = [ColValues ''F1'' 12]
   \<and> map_of (files (store_of (extraction_pass quiet_env mixed_db))) ''F0''
       = Some \<lparr>meta = sheet_file ''F0'' ''leads 0'', processed = True\<rparr>
   \<and> extraction_pass quiet_env known_db = (Inr (), known_db, [])"
  using C9_processed_file_skipped [of "\<lparr>meta = sheet_file ''F0'' ''leads 0'', processed = True\<rparr>"
          quiet_env "''F0''" mixed_db]
        C9_processed_file_skipped [of "\<lparr>meta = sheet_file ''F0'' ''leads 0'', processed = True\<rparr>"
          quiet_env "''F0''" known_db]
  by (simp add: eval_extract eval_strings known_db_def)

text \<open>
  Claim C2, as stated, at the store whose only file is \<open>F1\<close>: the cell
  \<open>https://twitter.com/foo, bar\<close> gives the handle \<open>foo\<close> only, and \<open>bar\<close> gets no record.
\<close>

theorem C2_counterexample:
  "fst (extract_twitter_handles quiet_env ''F1'') \<noteq> Inr [''foo'', ''bar'']
   \<and> extract_twitter_handles quiet_env ''F1'' = (Inr [''foo''], [ColValues ''F1'' 12])
   \<and> map fst (twitter_handles (store_of (extraction_pass quiet_env F1_db))) = [''foo'']
   \<and> map_of (twitter_handles (store_of (extraction_pass quiet_env F1_db))) ''bar'' = None"
  by (simp add: eval_extract eval_strings)

text \<open>
  Claim C2, amended. For an unprocessed file whose column has the one cell
  \<open>https://twitter.com/foo, bar\<close>, extraction gives exactly the handle \<open>foo\<close>. When \<open>foo\<close> is not
  yet known it receives a new record with \<open>sheet\<close> the file's id, \<open>added\<close> the file's creation
  date and no stage recorded; the file is marked processed; \<open>bar\<close>, which is not a profile
  URL in a cell of URLs, is dropped and the registry holds for it what it held before.
\<close>

theorem C2_url_cell_with_bare_name:
  assumes "files db = [(file_id, file_data)]" and "\<not> processed file_data"
    and "parse_date e (createdDate (meta file_data)) = Inr created"
    and "col_values e file_id (col_index column_id_default) = Inr [''https://twitter.com/foo, bar'']"
    and "interrupt e file_id = None"
    and "map_of (twitter_handles db) ''foo'' = None"
  shows "fst (extract_twitter_handles e file_id) = Inr [''foo'']
    \<and> extraction_pass e db =
        (Inr (),
         \<lparr>files = [(file_id, file_data\<lparr>processed := True\<rparr>)],
          twitter_handles = bt_insert ''foo''
             \<lparr>added = created, imported = import_clock e ''foo'', sheet = file_id,
              first_tweet_at = None, second_tweet_at = None\<rparr> (twitter_handles db)\<rparr>,
         [ColValues file_id (col_index column_id_default)])
    \<and> map_of (twitter_handles (store_of (extraction_pass e db))) ''bar''
        = map_of (twitter_handles db) ''bar''"
proof -
  have cell: "handles_of_cells [''https://twitter.com/foo, bar''] = [''foo'']"
    by (simp add: eval_strings)
  have pass: "extraction_pass e db =
        (Inr (),
         \<lparr>files = [(file_id, file_data\<lparr>processed := True\<rparr>)],
          twitter_handles = bt_insert ''foo''
             \<lparr>added = created, imported = import_clock e ''foo'', sheet = file_id,
              first_tweet_at = None, second_tweet_at = None\<rparr> (twitter_handles db)\<rparr>,
         [ColValues file_id (col_index column_id_default)])"
    using assms cell
    by (simp add: extract_twitter_handles_from_spreadsheets_def extract_file_def
          extract_twitter_handles_def import_file_def transaction_def bt_set_def)
  have "fst (extract_twitter_handles e file_id) = Inr [''foo'']"
    using assms(4) cell by (simp add: extract_twitter_handles_def)
  moreover have "map_of (twitter_handles (store_of (extraction_pass e db))) ''bar''
        = map_of (twitter_handles db) ''bar''"
    by (simp add: pass map_of_bt_insert)
  ultimately show ?thesis using pass by simp
qed

text \<open>The amended statement at the store whose only file is \<open>F1\<close>.\<close>

theorem C2_url_cell_with_bare_name_witness:
  "extraction_pass quiet_env F1_db =
     (Inr (),
      \<lparr>files = [(''F1'', \<lparr>meta = sheet_file ''F1'' ''leads 1'', processed = True\<rparr>)],
       twitter_handles = [(''foo'', \<lparr>added = 20150601, imported = 20150702, sheet = ''F1'',
                                    first_tweet_at = None, second_tweet_at = None\<rparr>)]\<rparr>,
      [ColValues ''F1'' 12])"
  using C2_url_cell_with_bare_name [of F1_db "''F1''" "\<lparr>meta = sheet_file ''F1'' ''leads 1'', processed = False\<rparr>"
          quiet_env 20150601]
  by (simp add: quiet_env_def F1_db_def sheet_file_def col_index_def column_id_default_def)

text \<open>The empty registry is well formed and the extraction pass keeps a registry well formed,
  whatever the sheets hold and however the pass ends: new records have no stage recorded.
  Discovery does not touch the registry (\<open>scan_handles\<close>).\<close>

lemma set_bt_insert: "set (bt_insert k v t) \<subseteq> insert (k, v) (set t)"
  by (induction t) (auto split: if_splits)

lemma keys_bt_insert: "set (map fst (bt_insert k v t)) = insert k (set (map fst t))"
  by (induction t) (force split: if_splits)+

lemma distinct_bt_insert:
  "distinct (map fst t) \<Longrightarrow> map_of t k = None \<Longrightarrow> distinct (map fst (bt_insert k v t))"
proof (induction t)
  case Nil
  then show ?case by simp
next
  case (Cons p t)
  obtain k' v' where p: "p = (k', v')" by (cases p)
  from Cons.prems p have fresh: "k \<noteq> k'" "map_of t k = None" by (auto split: if_splits)
  from fresh(2) have "k \<notin> set (map fst t)" by (simp add: map_of_eq_None_iff)
  with Cons p fresh keys_bt_insert [of k v t] show ?case by auto
qed

lemma registry_ok_insert:
  "registry_ok t \<Longrightarrow> map_of t k = None \<Longrightarrow> stage_inv v \<Longrightarrow> registry_ok (bt_insert k v t)"
  using set_bt_insert [of k v t]
  by (auto simp: registry_ok_def distinct_bt_insert list_all_iff)

lemma import_handles_registry_ok:
  "registry_ok hs \<Longrightarrow> registry_ok (snd (import_handles e fid created stop handles hs))"
proof (induction handles arbitrary: stop hs)
  case Nil
  then show ?case by simp
next
  case (Cons h handles)
  have "registry_ok (if map_of hs h = None
              then bt_insert h \<lparr>added = created, imported = import_clock e h, sheet = fid,
                      first_tweet_at = None, second_tweet_at = None\<rparr> hs
              else hs)"
    using Cons.prems by (simp add: registry_ok_insert stage_inv_def)
  from Cons.IH [OF this] Cons.prems show ?case by simp
qed

lemma import_handles_result_ok:
  "import_handles e fid created stop handles hs = (r, hs') \<Longrightarrow> registry_ok hs \<Longrightarrow> registry_ok hs'"
  using import_handles_registry_ok [of hs e fid created stop handles] by simp

lemma extract_file_registry_ok:
  "registry_ok (twitter_handles db) \<Longrightarrow>
   registry_ok (twitter_handles (store_of (extract_file e fid fd db)))"
  by (auto simp: extract_file_def extract_twitter_handles_def import_file_def transaction_def
           split: sum.splits prod.splits dest: import_handles_result_ok)

lemma extraction_pass_registry_ok:
  "registry_ok (twitter_handles db) \<Longrightarrow>
   registry_ok (twitter_handles (store_of (extraction_pass e db)))"
proof -
  have "registry_ok (twitter_handles db) \<Longrightarrow>
        registry_ok (twitter_handles (store_of (extract_loop e items db)))" for items
  proof (induction items arbitrary: db)
    case Nil
    then show ?case by simp
  next
    case (Cons item items)
    obtain fid fd where item: "item = (fid, fd)" by (cases item)
    obtain r db1 fx where step: "extract_file e fid fd db = (r, db1, fx)"
      by (cases "extract_file e fid fd db")
    from extract_file_registry_ok [OF Cons.prems, of e fid fd] step
    have ok1: "registry_ok (twitter_handles db1)" by simp
    show ?case
    proof (cases r)
      case (Inl err)
      with step ok1 item show ?thesis by simp
    next
      case (Inr u)
      with step item Cons.IH [OF ok1] show ?thesis by (simp add: case_prod_beta)
    qed
  qed
  then show "registry_ok (twitter_handles db) \<Longrightarrow>
   registry_ok (twitter_handles (store_of (extraction_pass e db)))"
    by (simp add: extract_twitter_handles_from_spreadsheets_def)
qed

lemma registry_ok_empty: "registry_ok (twitter_handles empty_db)"
  by (simp add: registry_ok_def empty_db_def)

section \<open>Properties of the stage runner\<close>

lemma tweet_handle_cases:
  "tweet_handle e n h d =
     (case next_stage d of
        None \<Rightarrow> (Inr n, d, [])
      | Some s \<Rightarrow>
          (case send_tweet (update_status e n (stage_tweet e n h s)) of
             Inl err \<Rightarrow>
               (Inl err, d, [UpdateStatus h s (stage_tweet e n h s) (update_status e n (stage_tweet e n h s))])
           | Inr u \<Rightarrow>
               (Inr (n + 1), record_stage s (utcnow e n) d,
                [UpdateStatus h s (stage_tweet e n h s) (update_status e n (stage_tweet e n h s))])))"
  by (simp add: tweet_handle_def transaction_def next_stage_def stage_tweet_def Let_def
           split: sum.splits)

lemma send_tweet_duplicate: "is_duplicate outcome \<Longrightarrow> send_tweet outcome = Inr ()"
  by (cases outcome rule: is_duplicate.cases) (simp_all add: send_tweet_def)

text \<open>
  Claim C1, amended. When the transport answers a send of stage 1 or 2 with the
  duplicate-status error, \<open>send_tweet\<close> returns as after a posted status: the handle's
  transaction records the stage with the current time and counts the send, so that stage
  is no longer the handle's next stage. After a handle's transaction returned with the
  count below the cap, the loop goes on with the next handle.
\<close>

theorem C1_duplicate_recorded:
  "(next_stage d = Some s \<and> is_duplicate (update_status e n (stage_tweet e n h s)) \<longrightarrow>
      tweet_handle e n h d =
        (Inr (n + 1), record_stage s (utcnow e n) d,
         [UpdateStatus h s (stage_tweet e n h s) (update_status e n (stage_tweet e n h s))])
      \<and> stage_field s (record_stage s (utcnow e n) d) = Some (utcnow e n)
      \<and> next_stage (record_stage s (utcnow e n) d) \<noteq> Some s)
   \<and> (tweet_handle e n h d = (Inr n', d', fx) \<and> n' < MAX_TWEET_COUNT \<longrightarrow>
        tweet_loop e n ((h, d) # items) =
          (outcome_of (tweet_loop e n' items),
           (h, d') # store_of (tweet_loop e n' items),
           fx @ effects_of (tweet_loop e n' items)))"
proof (intro conjI impI)
  assume a: "next_stage d = Some s \<and> is_duplicate (update_status e n (stage_tweet e n h s))"
  then show "tweet_handle e n h d =
        (Inr (n + 1), record_stage s (utcnow e n) d,
         [UpdateStatus h s (stage_tweet e n h s) (update_status e n (stage_tweet e n h s))])"
    by (simp add: tweet_handle_cases send_tweet_duplicate)
  show "stage_field s (record_stage s (utcnow e n) d) = Some (utcnow e n)"
    by (cases s) simp_all
  from a show "next_stage (record_stage s (utcnow e n) d) \<noteq> Some s"
    by (cases s) (auto simp: next_stage_def split: if_splits)
next
  assume "tweet_handle e n h d = (Inr n', d', fx) \<and> n' < MAX_TWEET_COUNT"
  then show "tweet_loop e n ((h, d) # items) =
          (outcome_of (tweet_loop e n' items),
           (h, d') # store_of (tweet_loop e n' items),
           fx @ effects_of (tweet_loop e n' items))"
    by (simp split: prod.splits)
qed

lemmas eval_tweet = tweet_everything_def tweet_handle_def transaction_def send_tweet_def
  random_choice_def FIRST_TWEET_CHOICES_def SECOND_TWEET_CHOICES_def MAX_TWEET_COUNT_def
  quiet_env_def duplicate_env_def new_handle_def two_db_def Let_def

text \<open>
  Claim C1, as stated, at a registry of two new handles and a transport that answers every
  send with the duplicate-status error: the run returns normally and both handles have
  \<open>first_tweet_at\<close> set afterwards.
\<close>

theorem C1_counterexample:
  "map (\<lambda>(h, d). (h, first_tweet_at d)) (twitter_handles two_db) = [(''bar'', None), (''foo'', None)]
   \<and> map (\<lambda>(h, d). (h, first_tweet_at d)) (twitter_handles (store_of (tweet_everything duplicate_env two_db)))
       = [(''bar'', Some 20150703), (''foo'', Some 20150704)]
   \<and> outcome_of (tweet_everything duplicate_env two_db) = Inr ()
   \<and> map is_duplicate (map (\<lambda>x. case x of UpdateStatus h s m r \<Rightarrow> r | ColValues f c \<Rightarrow> Posted)
          (effects_of (tweet_everything duplicate_env two_db))) = [True, True]"
  by (simp add: eval_tweet)

text \<open>The amended statement at the new handle \<open>foo\<close>, followed by \<open>zed\<close>.\<close>

theorem C1_duplicate_recorded_witness:
  "next_stage (snd (new_handle ''foo'')) = Some First
   \<and> is_duplicate (update_status duplicate_env 0 (stage_tweet duplicate_env 0 ''foo'' First))
   \<and> fst (tweet_handle duplicate_env 0 ''foo'' (snd (new_handle ''foo''))) = Inr 1
   \<and> first_tweet_at (store_of (tweet_handle duplicate_env 0 ''foo'' (snd (new_handle ''foo'')))) = Some 20150703
   \<and> map fst (store_of (tweet_loop duplicate_env 0 [new_handle ''foo'', new_handle ''zed''])) = [''foo'', ''zed'']
   \<and> length (effects_of (tweet_loop duplicate_env 0 [new_handle ''foo'', new_handle ''zed''])) = 2"
  using C1_duplicate_recorded [of "snd (new_handle ''foo'')" First duplicate_env 0 "''foo''" 1
          "store_of (tweet_handle duplicate_env 0 ''foo'' (snd (new_handle ''foo'')))"
          "effects_of (tweet_handle duplicate_env 0 ''foo'' (snd (new_handle ''foo'')))"
          "[new_handle ''zed'']"]
  by (simp add: eval_tweet next_stage_def stage_tweet_def)

lemma keeps_stages_refl: "keeps_stages d d"
  by (simp add: keeps_stages_def)

lemma keeps_stages_trans: "keeps_stages a b \<Longrightarrow> keeps_stages b c \<Longrightarrow> keeps_stages a c"
  unfolding keeps_stages_def by auto

lemma keeps_stages_field:
  "keeps_stages d d' \<Longrightarrow> stage_field s d \<noteq> None \<Longrightarrow> stage_field s d' = stage_field s d"
  by (cases s) (auto simp: keeps_stages_def)

lemma keeps_stages_record:
  "next_stage d = Some s \<Longrightarrow> keeps_stages d (record_stage s t d)"
  by (cases s)
     (auto simp: keeps_stages_def next_stage_def stage_inv_def terminal_def split: if_splits)

lemma next_stage_field: "next_stage d = Some s \<Longrightarrow> stage_field s d = None"
  by (cases s) (auto simp: next_stage_def split: if_splits)

lemma record_stage_field: "stage_field s (record_stage s t d) = Some t"
  by (cases s) simp_all

lemma next_stage_None: "next_stage d = None \<longleftrightarrow> terminal d"
  by (auto simp: next_stage_def terminal_def)

text \<open>What one handle's transaction can do.\<close>

lemma tweet_handle_step:
  assumes "tweet_handle e n h d = (r, d', fx)"
  shows "keeps_stages d d'"
    and "\<forall>x\<in>set fx. \<exists>s m out. x = UpdateStatus h s m out"
    and "returned_sends fx = [] \<or>
         (\<exists>s. returned_sends fx = [(h, s)] \<and> stage_field s d = None \<and> stage_field s d' \<noteq> None)"
    and "terminal d \<longrightarrow> fx = []"
proof -
  show "keeps_stages d d'"
    using assms
    by (auto simp: tweet_handle_cases keeps_stages_refl keeps_stages_record
             split: option.splits sum.splits)
  show "\<forall>x\<in>set fx. \<exists>s m out. x = UpdateStatus h s m out"
    using assms by (auto simp: tweet_handle_cases split: option.splits sum.splits)
  show "returned_sends fx = [] \<or>
         (\<exists>s. returned_sends fx = [(h, s)] \<and> stage_field s d = None \<and> stage_field s d' \<noteq> None)"
    using assms
    by (auto simp: tweet_handle_cases next_stage_field record_stage_field
             split: option.splits sum.splits)
  show "terminal d \<longrightarrow> fx = []"
    using assms by (auto simp: tweet_handle_cases next_stage_None [symmetric])
qed

lemma returned_sends_append: "returned_sends (xs @ ys) = returned_sends xs @ returned_sends ys"
  by (induction xs rule: returned_sends.induct) simp_all

lemma returned_sends_target:
  "(h, s) \<in> set (returned_sends fx) \<Longrightarrow> \<exists>m out. UpdateStatus h s m out \<in> set fx"
  by (induction fx rule: returned_sends.induct) (auto split: if_splits)

lemma run_ok_Nil: "run_ok t t []"
  by (auto simp: run_ok_def keeps_stages_refl)

lemma run_ok_Cons:
  assumes step: "tweet_handle e n h d = (r, d', fxh)"
    and rest: "run_ok items items' fx"
    and fresh: "h \<notin> fst ` set items"
  shows "run_ok ((h, d) # items) ((h, d') # items') (fxh @ fx)"
proof -
  note s = tweet_handle_step [OF step]
  from rest have keys: "map fst items' = map fst items" by (simp add: run_ok_def)
  have other: "\<And>k v. map_of items k = Some v \<Longrightarrow> k \<noteq> h"
    using fresh by (force dest: map_of_SomeD)
  have rs_rest: "\<forall>(k, s)\<in>set (returned_sends fx). k \<noteq> h"
    using rest other by (fastforce simp: run_ok_def)
  have rs_h: "\<forall>(k, s)\<in>set (returned_sends fxh). k = h"
    using s(3) by auto
  have 1: "map fst ((h, d') # items') = map fst ((h, d) # items)"
    using keys by simp
  have 2: "\<forall>k v. map_of ((h, d) # items) k = Some v \<longrightarrow>
             (\<exists>v'. map_of ((h, d') # items') k = Some v' \<and> keeps_stages v v')"
    using rest s(1) by (auto simp: run_ok_def)
  have 3: "distinct (returned_sends (fxh @ fx))"
    using rest s(3) rs_rest by (auto simp: run_ok_def returned_sends_append)
  have 4: "\<forall>(k, st)\<in>set (returned_sends (fxh @ fx)).
           \<exists>v v'. map_of ((h, d) # items) k = Some v \<and> stage_field st v = None
                 \<and> map_of ((h, d') # items') k = Some v' \<and> stage_field st v' \<noteq> None"
  proof (clarify)
    fix k st assume "(k, st) \<in> set (returned_sends (fxh @ fx))"
    then consider "(k, st) \<in> set (returned_sends fxh)" | "(k, st) \<in> set (returned_sends fx)"
      by (auto simp: returned_sends_append)
    then show "\<exists>v v'. map_of ((h, d) # items) k = Some v \<and> stage_field st v = None
                 \<and> map_of ((h, d') # items') k = Some v' \<and> stage_field st v' \<noteq> None"
    proof cases
      case 1
      with s(3) show ?thesis by auto
    next
      case 2
      with rs_rest have "k \<noteq> h" by auto
      with 2 rest show ?thesis by (fastforce simp: run_ok_def)
    qed
  qed
  have 5: "\<forall>x\<in>set (fxh @ fx). \<exists>k st m out v.
             x = UpdateStatus k st m out \<and> map_of ((h, d) # items) k = Some v \<and> \<not> terminal v"
  proof
    fix x assume "x \<in> set (fxh @ fx)"
    then consider "x \<in> set fxh" | "x \<in> set fx" by auto
    then show "\<exists>k st m out v.
             x = UpdateStatus k st m out \<and> map_of ((h, d) # items) k = Some v \<and> \<not> terminal v"
    proof cases
      case 1
      with s(2) s(4) show ?thesis by fastforce
    next
      case 2
      with rest obtain k st m out v where
        x: "x = UpdateStatus k st m out" "map_of items k = Some v" "\<not> terminal v"
        by (fastforce simp: run_ok_def)
      with other have "k \<noteq> h" by blast
      with x show ?thesis by simp
    qed
  qed
  from 1 2 3 4 5 show ?thesis unfolding run_ok_def by blast
qed

lemma tweet_loop_run_ok:
  "distinct (map fst items) \<Longrightarrow>
   run_ok items (store_of (tweet_loop e n items)) (effects_of (tweet_loop e n items))"
proof (induction items arbitrary: n)
  case Nil
  then show ?case by (simp add: run_ok_Nil)
next
  case (Cons item items)
  obtain h d where item: "item = (h, d)" by (cases item)
  from Cons.prems item have fresh: "h \<notin> fst ` set items" and dist: "distinct (map fst items)"
    by auto
  obtain r d' fxh where step: "tweet_handle e n h d = (r, d', fxh)"
    by (cases "tweet_handle e n h d")
  have stop: "run_ok ((h, d) # items) ((h, d') # items) fxh"
    using run_ok_Cons [OF step run_ok_Nil fresh] by simp
  show ?case
  proof (cases r)
    case (Inl err)
    with step stop item show ?thesis by simp
  next
    case (Inr n')
    show ?thesis
    proof (cases "MAX_TWEET_COUNT \<le> n'")
      case True
      with Inr step stop item show ?thesis by simp
    next
      case False
      obtain r2 items2 fx2 where rec: "tweet_loop e n' items = (r2, items2, fx2)"
        by (cases "tweet_loop e n' items")
      from Cons.IH [OF dist, of n'] rec have "run_ok items items2 fx2" by simp
      from run_ok_Cons [OF step this fresh] Inr step item False rec
      show ?thesis by simp
    qed
  qed
qed

lemma run_ok_trans:
  assumes a: "run_ok t t1 fx1" and b: "run_ok t1 t2 fx2"
  shows "run_ok t t2 (fx1 @ fx2)"
proof -
  from a b have keys1: "map fst t1 = map fst t" and keys2: "map fst t2 = map fst t1"
    by (simp_all add: run_ok_def)
  have keep1: "\<And>h d. map_of t h = Some d \<Longrightarrow> \<exists>d'. map_of t1 h = Some d' \<and> keeps_stages d d'"
    using a by (simp add: run_ok_def)
  have keep2: "\<And>h d. map_of t1 h = Some d \<Longrightarrow> \<exists>d'. map_of t2 h = Some d' \<and> keeps_stages d d'"
    using b by (simp add: run_ok_def)
  have earlier: "\<And>h d1. map_of t1 h = Some d1 \<Longrightarrow> \<exists>d. map_of t h = Some d \<and> keeps_stages d d1"
  proof -
    fix h d1 assume h: "map_of t1 h = Some d1"
    then have "h \<in> set (map fst t1)" by (force dest: map_of_SomeD)
    with keys1 have "map_of t h \<noteq> None" by (simp add: map_of_eq_None_iff)
    then obtain d where d: "map_of t h = Some d" by auto
    from keep1 [OF d] h d show "\<exists>d. map_of t h = Some d \<and> keeps_stages d d1" by auto
  qed
  have sent1: "\<And>h s. (h, s) \<in> set (returned_sends fx1) \<Longrightarrow>
      \<exists>d d'. map_of t h = Some d \<and> stage_field s d = None \<and> map_of t1 h = Some d' \<and> stage_field s d' \<noteq> None"
    using a by (fastforce simp: run_ok_def)
  have sent2: "\<And>h s. (h, s) \<in> set (returned_sends fx2) \<Longrightarrow>
      \<exists>d d'. map_of t1 h = Some d \<and> stage_field s d = None \<and> map_of t2 h = Some d' \<and> stage_field s d' \<noteq> None"
    using b by (fastforce simp: run_ok_def)
  have 1: "map fst t2 = map fst t" using keys1 keys2 by simp
  have 2: "\<forall>h d. map_of t h = Some d \<longrightarrow> (\<exists>d'. map_of t2 h = Some d' \<and> keeps_stages d d')"
    using keep1 keep2 keeps_stages_trans by blast
  have disjoint: "set (returned_sends fx1) \<inter> set (returned_sends fx2) = {}"
  proof (rule ccontr)
    assume "set (returned_sends fx1) \<inter> set (returned_sends fx2) \<noteq> {}"
    then obtain h s where "(h, s) \<in> set (returned_sends fx1)" "(h, s) \<in> set (returned_sends fx2)"
      by auto
    from sent1 [OF this(1)] sent2 [OF this(2)] show False by auto
  qed
  have 3: "distinct (returned_sends (fx1 @ fx2))"
    using a b disjoint by (simp add: run_ok_def returned_sends_append)
  have 4: "\<forall>(h, s)\<in>set (returned_sends (fx1 @ fx2)).
           \<exists>d d'. map_of t h = Some d \<and> stage_field s d = None
                 \<and> map_of t2 h = Some d' \<and> stage_field s d' \<noteq> None"
  proof (clarify)
    fix h s assume "(h, s) \<in> set (returned_sends (fx1 @ fx2))"
    then consider "(h, s) \<in> set (returned_sends fx1)" | "(h, s) \<in> set (returned_sends fx2)"
      by (auto simp: returned_sends_append)
    then show "\<exists>d d'. map_of t h = Some d \<and> stage_field s d = None
                 \<and> map_of t2 h = Some d' \<and> stage_field s d' \<noteq> None"
    proof cases
      case 1
      from sent1 [OF 1] obtain d d1 where
        d: "map_of t h = Some d" "stage_field s d = None" "map_of t1 h = Some d1" "stage_field s d1 \<noteq> None"
        by blast
      from keep2 [OF d(3)] obtain d2 where d2: "map_of t2 h = Some d2" "keeps_stages d1 d2" by blast
      from keeps_stages_field [OF d2(2) d(4)] d d2 show ?thesis by auto
    next
      case 2
      from sent2 [OF 2] obtain d1 d2 where
        d: "map_of t1 h = Some d1" "stage_field s d1 = None" "map_of t2 h = Some d2" "stage_field s d2 \<noteq> None"
        by blast
      from earlier [OF d(1)] obtain d0 where d0: "map_of t h = Some d0" "keeps_stages d0 d1" by blast
      have "stage_field s d0 = None"
      proof (rule ccontr)
        assume "stage_field s d0 \<noteq> None"
        from keeps_stages_field [OF d0(2) this] this d(2) show False by simp
      qed
      with d0 d show ?thesis by auto
    qed
  qed
  have 5: "\<forall>x\<in>set (fx1 @ fx2). \<exists>h s m out d.
             x = UpdateStatus h s m out \<and> map_of t h = Some d \<and> \<not> terminal d"
  proof
    fix x assume "x \<in> set (fx1 @ fx2)"
    then consider "x \<in> set fx1" | "x \<in> set fx2" by auto
    then show "\<exists>h s m out d. x = UpdateStatus h s m out \<and> map_of t h = Some d \<and> \<not> terminal d"
    proof cases
      case 1
      with a show ?thesis by (simp add: run_ok_def)
    next
      case 2
      with b obtain h s m out d1 where
        x: "x = UpdateStatus h s m out" "map_of t1 h = Some d1" "\<not> terminal d1"
        by (fastforce simp: run_ok_def)
      from earlier [OF x(2)] obtain d0 where d0: "map_of t h = Some d0" "keeps_stages d0 d1" by blast
      with x(3) have "\<not> terminal d0" by (auto simp: keeps_stages_def)
      with x d0 show ?thesis by auto
    qed
  qed
  from 1 2 3 4 5 show ?thesis unfolding run_ok_def by blast
qed

lemma stage_runs_run_ok:
  "distinct (map fst (twitter_handles db)) \<Longrightarrow>
   run_ok (twitter_handles db) (twitter_handles (fst (stage_runs es db))) (snd (stage_runs es db))"
proof (induction es arbitrary: db)
  case Nil
  then show ?case by (simp add: run_ok_Nil)
next
  case (Cons e es)
  obtain r items fx where run: "tweet_loop e 0 (twitter_handles db) = (r, items, fx)"
    by (cases "tweet_loop e 0 (twitter_handles db)")
  from tweet_loop_run_ok [OF Cons.prems, of e 0] run
  have first: "run_ok (twitter_handles db) items fx" by simp
  then have "distinct (map fst (twitter_handles (db\<lparr>twitter_handles := items\<rparr>)))"
    using Cons.prems by (simp add: run_ok_def)
  from Cons.IH [OF this]
  have "run_ok items (twitter_handles (fst (stage_runs es (db\<lparr>twitter_handles := items\<rparr>))))
          (snd (stage_runs es (db\<lparr>twitter_handles := items\<rparr>)))"
    by simp
  from run_ok_trans [OF first this] run show ?case
    by (simp add: tweet_everything_def case_prod_beta)
qed

text \<open>
  Claim C3. In a registry with distinct keys, after any sequence of runs, whatever the
  collaborators answer and whether or not a run raises:
  if no record had the second stage without the first, none has it afterwards; no record
  is removed or added; a stage field that was set holds the same value; a record with
  both fields set is unchanged and no status was sent for its handle; no handle and stage
  occurs twice among the sends that returned, and each of them went to a handle whose
  field for that stage was unset before the runs and is set after them.
\<close>

theorem C3_stage_progression:
  assumes "distinct (map fst (twitter_handles db))"
  shows "((\<forall>(h, d)\<in>set (twitter_handles db). stage_inv d) \<longrightarrow>
           (\<forall>(h, d)\<in>set (twitter_handles (fst (stage_runs es db))). stage_inv d))
    \<and> map fst (twitter_handles (fst (stage_runs es db))) = map fst (twitter_handles db)
    \<and> (\<forall>h d. map_of (twitter_handles db) h = Some d \<longrightarrow>
          (\<exists>d'. map_of (twitter_handles (fst (stage_runs es db))) h = Some d'
             \<and> (\<forall>s. stage_field s d \<noteq> None \<longrightarrow> stage_field s d' = stage_field s d)
             \<and> (terminal d \<longrightarrow>
                  d' = d \<and> (\<forall>s m out. UpdateStatus h s m out \<notin> set (snd (stage_runs es db))))))
    \<and> distinct (returned_sends (snd (stage_runs es db)))
    \<and> (\<forall>(h, s)\<in>set (returned_sends (snd (stage_runs es db))).
          \<exists>d d'. map_of (twitter_handles db) h = Some d \<and> stage_field s d = None
                \<and> map_of (twitter_handles (fst (stage_runs es db))) h = Some d'
                \<and> stage_field s d' \<noteq> None)"
proof -
  let ?t = "twitter_handles db" and ?t' = "twitter_handles (fst (stage_runs es db))"
  let ?fx = "snd (stage_runs es db)"
  have ok: "run_ok ?t ?t' ?fx" using assms by (rule stage_runs_run_ok)
  then have keys: "map fst ?t' = map fst ?t" by (simp add: run_ok_def)
  have keep: "\<And>h d. map_of ?t h = Some d \<Longrightarrow> \<exists>d'. map_of ?t' h = Some d' \<and> keeps_stages d d'"
    using ok by (simp add: run_ok_def)
  have inv: "(\<forall>(h, d)\<in>set ?t. stage_inv d) \<longrightarrow> (\<forall>(h, d)\<in>set ?t'. stage_inv d)"
  proof (intro impI, clarify)
    fix h d' assume all: "\<forall>(h, d)\<in>set ?t. stage_inv d" and mem: "(h, d') \<in> set ?t'"
    from assms keys have "distinct (map fst ?t')" by simp
    with mem have at: "map_of ?t' h = Some d'" by simp
    from mem have "h \<in> set (map fst ?t')" by force
    with keys have "map_of ?t h \<noteq> None" by (simp add: map_of_eq_None_iff)
    then obtain d where d: "map_of ?t h = Some d" by auto
    then have "(h, d) \<in> set ?t" by (rule map_of_SomeD)
    with all have "stage_inv d" by auto
    with keep [OF d] at show "stage_inv d'" by (auto simp: keeps_stages_def)
  qed
  have once: "\<forall>h d. map_of ?t h = Some d \<longrightarrow>
          (\<exists>d'. map_of ?t' h = Some d'
             \<and> (\<forall>s. stage_field s d \<noteq> None \<longrightarrow> stage_field s d' = stage_field s d)
             \<and> (terminal d \<longrightarrow> d' = d \<and> (\<forall>s m out. UpdateStatus h s m out \<notin> set ?fx)))"
  proof (intro allI impI)
    fix h d assume d: "map_of ?t h = Some d"
    from keep [OF d] obtain d' where d': "map_of ?t' h = Some d'" "keeps_stages d d'" by blast
    have "terminal d \<longrightarrow> (\<forall>s m out. UpdateStatus h s m out \<notin> set ?fx)"
      using ok d by (fastforce simp: run_ok_def)
    with d' show "\<exists>d'. map_of ?t' h = Some d'
             \<and> (\<forall>s. stage_field s d \<noteq> None \<longrightarrow> stage_field s d' = stage_field s d)
             \<and> (terminal d \<longrightarrow> d' = d \<and> (\<forall>s m out. UpdateStatus h s m out \<notin> set ?fx))"
      by (auto simp: keeps_stages_field keeps_stages_def)
  qed
  from ok have "distinct (returned_sends ?fx)"
    and "\<forall>(h, s)\<in>set (returned_sends ?fx).
          \<exists>d d'. map_of ?t h = Some d \<and> stage_field s d = None
                \<and> map_of ?t' h = Some d' \<and> stage_field s d' \<noteq> None"
    by (simp_all add: run_ok_def)
  with inv keys once show ?thesis by blast
qed

lemma eligible_handles_simps:
  "eligible_handles [] = []"
  "eligible_handles ((h, d) # t) = (if eligible d then (h, d) # eligible_handles t else eligible_handles t)"
  "eligible_handles (xs @ ys) = eligible_handles xs @ eligible_handles ys"
  by (simp_all add: eligible_handles_def)

lemma tweet_handle_count:
  assumes "tweet_handle e c h d = (Inr c', d', fx)"
  shows "if eligible d
         then c' = c + 1 \<and> length fx = 1 \<and> (\<exists>s. returned_sends fx = [(h, s)])
         else c' = c \<and> fx = [] \<and> d' = d"
  using assms
  by (auto simp: tweet_handle_cases eligible_def next_stage_None [symmetric]
           split: option.splits sum.splits)

lemma tweet_loop_cap:
  "tweet_loop e c items = (Inr (), items', fx) \<Longrightarrow> c < MAX_TWEET_COUNT \<Longrightarrow>
   MAX_TWEET_COUNT - c \<le> length (eligible_handles items) \<Longrightarrow>
   \<exists>n. length (eligible_handles (take n items)) = MAX_TWEET_COUNT - c
      \<and> drop n items' = drop n items
      \<and> length fx = MAX_TWEET_COUNT - c
      \<and> length (returned_sends fx) = MAX_TWEET_COUNT - c
      \<and> map fst (returned_sends fx) = map fst (eligible_handles (take n items))"
proof (induction items arbitrary: c items' fx)
  case Nil
  then show ?case by (simp add: eligible_handles_simps)
next
  case (Cons item items)
  obtain h d where item: "item = (h, d)" by (cases item)
  obtain r d' fxh where step: "tweet_handle e c h d = (r, d', fxh)"
    by (cases "tweet_handle e c h d")
  from Cons.prems(1) item step obtain c' where r: "r = Inr c'"
    by (cases r) auto
  note count = tweet_handle_count [OF step [unfolded r]]
  show ?case
  proof (cases "MAX_TWEET_COUNT \<le> c'")
    case True
    with Cons.prems(2) count have el: "eligible d" and c': "c' = c + 1"
      by (auto split: if_splits)
    with True Cons.prems(2) have last: "MAX_TWEET_COUNT - c = 1" by simp
    from True Cons.prems(1) item step r have res: "items' = (h, d') # items" "fx = fxh"
      by auto
    from count el obtain s where "length fxh = 1" "returned_sends fxh = [(h, s)]" by auto
    with res last el item eligible_handles_simps have
      "length (eligible_handles (take 1 (item # items))) = MAX_TWEET_COUNT - c
      \<and> drop 1 items' = drop 1 (item # items)
      \<and> length fx = MAX_TWEET_COUNT - c
      \<and> length (returned_sends fx) = MAX_TWEET_COUNT - c
      \<and> map fst (returned_sends fx) = map fst (eligible_handles (take 1 (item # items)))"
      by simp
    then show ?thesis by blast
  next
    case False
    obtain r2 items2 fx2 where rec: "tweet_loop e c' items = (r2, items2, fx2)"
      by (cases "tweet_loop e c' items")
    from False Cons.prems(1) item step r rec
    have res: "r2 = Inr ()" "items' = (h, d') # items2" "fx = fxh @ fx2"
      by auto
    from False have small: "c' < MAX_TWEET_COUNT" by simp
    from Cons.prems(3) item count eligible_handles_simps
    have enough: "MAX_TWEET_COUNT - c' \<le> length (eligible_handles items)"
      by (auto split: if_splits)
    from Cons.IH [OF rec [unfolded res(1)] small enough] obtain n where n:
      "length (eligible_handles (take n items)) = MAX_TWEET_COUNT - c'"
      "drop n items2 = drop n items"
      "length fx2 = MAX_TWEET_COUNT - c'"
      "length (returned_sends fx2) = MAX_TWEET_COUNT - c'"
      "map fst (returned_sends fx2) = map fst (eligible_handles (take n items))"
      by blast
    from n res item count small Cons.prems(2) have
      "length (eligible_handles (take (Suc n) (item # items))) = MAX_TWEET_COUNT - c
      \<and> drop (Suc n) items' = drop (Suc n) (item # items)
      \<and> length fx = MAX_TWEET_COUNT - c
      \<and> length (returned_sends fx) = MAX_TWEET_COUNT - c
      \<and> map fst (returned_sends fx) = map fst (eligible_handles (take (Suc n) (item # items)))"
      by (auto simp: returned_sends_append eligible_handles_simps split: if_splits)
    then show ?thesis by blast
  qed
qed

text \<open>
  Claim C4. In a run that returns normally on a registry with more than \<open>MAX_TWEET_COUNT\<close>
  eligible handles, exactly \<open>MAX_TWEET_COUNT\<close> statuses are sent, all of them recorded, to
  the first \<open>MAX_TWEET_COUNT\<close> eligible handles in key order; from some position \<open>n\<close> on the
  registry is what it was, and that part holds the remaining eligible handles.
\<close>

theorem C4_per_run_cap:
  assumes "outcome_of (tweet_everything e db) = Inr ()"
    and "MAX_TWEET_COUNT < length (eligible_handles (twitter_handles db))"
  shows "length (effects_of (tweet_everything e db)) = MAX_TWEET_COUNT
    \<and> length (returned_sends (effects_of (tweet_everything e db))) = MAX_TWEET_COUNT
    \<and> (\<exists>n. map fst (returned_sends (effects_of (tweet_everything e db)))
               = map fst (eligible_handles (take n (twitter_handles db)))
          \<and> length (eligible_handles (take n (twitter_handles db))) = MAX_TWEET_COUNT
          \<and> drop n (twitter_handles (store_of (tweet_everything e db))) = drop n (twitter_handles db)
          \<and> length (eligible_handles (drop n (twitter_handles db)))
              = length (eligible_handles (twitter_handles db)) - MAX_TWEET_COUNT)"
proof -
  obtain r items fx where run: "tweet_loop e 0 (twitter_handles db) = (r, items, fx)"
    by (cases "tweet_loop e 0 (twitter_handles db)")
  with assms(1) have r: "r = Inr ()" by (simp add: tweet_everything_def)
  have pos: "0 < MAX_TWEET_COUNT" by (simp add: MAX_TWEET_COUNT_def)
  from assms(2) have "MAX_TWEET_COUNT - 0 \<le> length (eligible_handles (twitter_handles db))"
    by simp
  from tweet_loop_cap [OF run [unfolded r] pos this] obtain n where n:
    "length (eligible_handles (take n (twitter_handles db))) = MAX_TWEET_COUNT"
    "drop n items = drop n (twitter_handles db)"
    "length fx = MAX_TWEET_COUNT"
    "length (returned_sends fx) = MAX_TWEET_COUNT"
    "map fst (returned_sends fx) = map fst (eligible_handles (take n (twitter_handles db)))"
    by auto
  have "length (eligible_handles (twitter_handles db))
      = length (eligible_handles (take n (twitter_handles db)))
        + length (eligible_handles (drop n (twitter_handles db)))"
    by (metis append_take_drop_id eligible_handles_simps(3) length_append)
  with n(1) have rest: "length (eligible_handles (drop n (twitter_handles db)))
              = length (eligible_handles (twitter_handles db)) - MAX_TWEET_COUNT"
    by simp
  from run n rest show ?thesis
    by (auto simp: tweet_everything_def)
qed

lemmas eval_stage = eval_tweet eligible_handles_def done_handle_def staged_db_def eleven_db_def eligible_def
  terminal_def stage_inv_def

text \<open>A registry with one terminal handle and eleven new ones.\<close>

theorem C4_per_run_cap_witness:
  "outcome_of (tweet_everything quiet_env eleven_db) = Inr ()
   \<and> length (eligible_handles (twitter_handles eleven_db)) = 11
   \<and> length (effects_of (tweet_everything quiet_env eleven_db)) = 10
   \<and> map fst (returned_sends (effects_of (tweet_everything quiet_env eleven_db)))
       = [''b0'', ''b1'', ''b2'', ''b3'', ''b4'', ''b5'', ''b6'', ''b7'', ''b8'', ''b9'']
   \<and> drop 11 (twitter_handles (store_of (tweet_everything quiet_env eleven_db))) = [new_handle ''c0'']"
  using C4_per_run_cap [of quiet_env eleven_db]
  by (simp add: eval_stage)

text \<open>Three runs on a registry with a terminal handle and a new one.\<close>

theorem C3_stage_progression_witness:
  "distinct (map fst (twitter_handles staged_db))
   \<and> stage_inv (snd (done_handle ''bar'')) \<and> stage_inv (snd (new_handle ''foo''))
   \<and> map_of (twitter_handles staged_db) ''bar'' = Some (snd (done_handle ''bar''))
   \<and> terminal (snd (done_handle ''bar''))
   \<and> returned_sends (snd (stage_runs [quiet_env, quiet_env, quiet_env] staged_db))
       = [(''foo'', First), (''foo'', Second)]
   \<and> twitter_handles (fst (stage_runs [quiet_env, quiet_env, quiet_env] staged_db))
       = [done_handle ''bar'',
          (''foo'', \<lparr>added = 20150601, imported = 20150702, sheet = ''F1'',
                    first_tweet_at = Some 20150703, second_tweet_at = Some 20150703\<rparr>)]"
  using C3_stage_progression [of staged_db "[quiet_env, quiet_env, quiet_env]"]
  by (simp add: eval_stage)

end
